theory Spec2Isabelle
  imports Main "HOL-Library.Sublist" "HOL-Library.AList"
begin

section \<open>Strings\<close>

text \<open>
  A Python \<open>str\<close> is modelled as a \<open>string\<close>: the list of its code points, each below
  256 (Isabelle's \<open>char\<close>). On these code points the character classes of Python are
  finite tables, written out below.
\<close>

abbreviation nl :: char where "nl \<equiv> CHR 0x0A"
abbreviation bt :: char where "bt \<equiv> CHR 0x60"
abbreviation sq :: char where "sq \<equiv> CHR 0x27"
abbreviation dq :: char where "dq \<equiv> CHR 0x22"

text \<open>
  Whitespace as \<open>str.strip()\<close>, \<open>str.isspace()\<close> and the regular expression class
  \<open>\s\<close> see it: tab, line feed, vertical tab, form feed, carriage return, the four
  separators 0x1C..0x1F, space, NEL (0x85) and the no-break space (0xA0).
\<close>

definition is_space :: "char \<Rightarrow> bool" where
  "is_space c = (of_char c \<in> {9::nat, 10, 11, 12, 13, 28, 29, 30, 31, 32, 133, 160})"

text \<open>\<open>s.strip()\<close>: leading and trailing whitespace removed.\<close>

definition strip :: "string \<Rightarrow> string" where
  "strip s = rev (dropWhile is_space (rev (dropWhile is_space s)))"

text \<open>\<open>s.strip(ch)\<close> for a one-character argument.\<close>

definition strip_char :: "char \<Rightarrow> string \<Rightarrow> string" where
  "strip_char ch s = rev (dropWhile (\<lambda>c. c = ch) (rev (dropWhile (\<lambda>c. c = ch) s)))"

text \<open>\<open>sub in s\<close>: \<open>sub\<close> occurs in \<open>s\<close> as a contiguous substring.\<close>

fun contains :: "string \<Rightarrow> string \<Rightarrow> bool" where
  "contains sub [] = (sub = [])"
| "contains sub (c # cs) = (prefix sub (c # cs) \<or> contains sub cs)"

section \<open>Conversation state (src/graph.py, GraphState)\<close>

datatype jval = JStr string | JList "string list"

record tool_call =
  call_name :: string
  call_args :: "(string \<times> jval) list"
  call_id :: string

text \<open>
  The message classes of the conversation. \<open>AIMessage\<close> carries its tool-call requests,
  \<open>ToolMessage\<close> the id of the call it answers; the first argument is the content.
\<close>

datatype message =
    HumanMessage string
  | AIMessage string "tool_call list"
  | SystemMessage string
  | ToolMessage string string

fun content :: "message \<Rightarrow> string" where
  "content (HumanMessage c) = c"
| "content (AIMessage c tcs) = c"
| "content (SystemMessage c) = c"
| "content (ToolMessage c i) = c"

fun is_system :: "message \<Rightarrow> bool" where
  "is_system (SystemMessage c) = True"
| "is_system m = False"

fun is_human :: "message \<Rightarrow> bool" where
  "is_human (HumanMessage c) = True"
| "is_human m = False"

fun is_human_or_ai :: "message \<Rightarrow> bool" where
  "is_human_or_ai (HumanMessage c) = True"
| "is_human_or_ai (AIMessage c tcs) = True"
| "is_human_or_ai m = False"

text \<open>
  The state dictionary. \<open>messages\<close> is always present; the keys read with
  \<open>state.get(key, default)\<close> may be absent, which is \<open>None\<close> here.
\<close>

record state =
  messages :: "message list"
  long_term_summary :: "string option"
  retrieved_context :: "string list option"
  intent :: "string option"
  next_action_type :: "string option"
  slots :: "(string \<times> string) list option"

datatype error = IndexError | AttributeError | TypeError | OracleError string | BaseException string

section \<open>Memory (src/agent/memory.py)\<close>

text \<open>
  The semantic index is the list of the page contents in its docstore, in insertion
  order. The module creates it with \<open>FAISS.from_texts([""], ...)\<close>: one placeholder.
\<close>

type_synonym vectorstore = "string list"

definition initial_vectorstore :: vectorstore where
  "initial_vectorstore = [[]]"

definition MAX_RECENT_MESSAGES :: nat where
  "MAX_RECENT_MESSAGES = 10"

definition MESSAGES_TO_SUMMARIZE_PER_BATCH :: nat where
  "MESSAGES_TO_SUMMARIZE_PER_BATCH = 5"

text \<open>
  \<open>manage_memory_node\<close>. The language-model call \<open>summary_chain.invoke(...).content\<close> is
  the parameter \<open>summary_chain\<close>: it receives the messages to summarise and the existing
  summary, and returns the text or raises. \<open>vectorstore.add_documents\<close> appends one
  entry. The result is the returned state together with the index after the call.
\<close>

definition manage_memory_node ::
  "(message list \<Rightarrow> string \<Rightarrow> error + string) \<Rightarrow> vectorstore \<Rightarrow> state \<Rightarrow> error + (state \<times> vectorstore)" where
  "manage_memory_node summary_chain vectorstore st =
     (let msgs = messages st;
          lts = (case long_term_summary st of None \<Rightarrow> ''No prior summary.'' | Some s \<Rightarrow> s);
          conversational = filter (\<lambda>m. \<not> is_system m) msgs
      in if length conversational > MAX_RECENT_MESSAGES then
           (let batch = take MESSAGES_TO_SUMMARIZE_PER_BATCH conversational;
                to_summarize = filter is_human_or_ai batch
            in case summary_chain to_summarize lts of
                 Inl e \<Rightarrow> Inl e
               | Inr raw \<Rightarrow>
                   (let new_summary = strip raw;
                        vectorstore' = (if new_summary \<noteq> [] then vectorstore @ [new_summary]
                                        else vectorstore);
                        remaining = drop MESSAGES_TO_SUMMARIZE_PER_BATCH conversational;
                        system_messages = filter is_system msgs
                    in Inr (st\<lparr>messages := system_messages @ remaining,
                                long_term_summary := Some new_summary\<rparr>, vectorstore')))
         else Inr (st, vectorstore))"

text \<open>
  \<open>retrieve_long_term_memory_node\<close>. \<open>vectorstore.similarity_search(query, k)\<close> is the
  parameter \<open>similarity_search\<close>, given the index it reads; it returns the page contents
  of the documents found, or raises.
\<close>

definition retrieve_long_term_memory_node ::
  "(vectorstore \<Rightarrow> string \<Rightarrow> nat \<Rightarrow> error + string list) \<Rightarrow> vectorstore \<Rightarrow> state \<Rightarrow> error + state" where
  "retrieve_long_term_memory_node similarity_search vectorstore st =
     (let msgs = messages st;
          last_input = (case filter is_human (rev msgs) of [] \<Rightarrow> [] | m # _ \<Rightarrow> content m)
      in if last_input \<noteq> [] \<and> length vectorstore > 1 then
           (case similarity_search vectorstore last_input 3 of
              Inl e \<Rightarrow> Inl e
            | Inr docs \<Rightarrow> Inr (st\<lparr>retrieved_context := Some docs\<rparr>))
         else Inr (st\<lparr>retrieved_context := Some []\<rparr>))"

section \<open>Tool executor (src/graph.py)\<close>

text \<open>
  A registered tool: its name and the parameter names of its signature. The registry
  is the list \<open>tools\<close> of the module.
\<close>

record tool =
  tool_name :: string
  parameters :: "string list"

definition tools :: "tool list" where
  "tools =
     [\<lparr>tool_name = ''calculator'', parameters = [''expression'']\<rparr>,
      \<lparr>tool_name = ''get_product_info'',
       parameters = [''query'', ''long_term_summary'', ''retrieved_context'']\<rparr>,
      \<lparr>tool_name = ''get_outlet_details'',
       parameters = [''query'', ''long_term_summary'', ''retrieved_context'']\<rparr>]"

text \<open>
  What a call into code outside this development does: it returns a text, it raises an
  exception of a class derived from \<open>Exception\<close> (with \<open>str(e)\<close>), which a clause
  \<open>except Exception\<close> catches, or it raises another \<open>BaseException\<close> (\<open>SystemExit\<close>,
  \<open>KeyboardInterrupt\<close>, \<open>GeneratorExit\<close>; with the name of its class), which such a clause
  does not catch.
\<close>

datatype outcome = Returned string | Raised string | Escaped string

text \<open>
  \<open>tool_to_run.invoke(actual_tool_args)\<close> is the parameter \<open>invoke\<close>: given the tool's
  name and the argument dictionary it has one of the three outcomes. The executor's
  effect on the outside is the list of the invocations it makes, returned beside its
  result also when an exception leaves it.
\<close>

type_synonym invocation = "string \<times> (string \<times> jval) list"

text \<open>
  The memory fields are added to the caller's arguments for the parameter names the
  tool's signature has (\<open>actual_tool_args\<close> of the source).
\<close>

definition actual_tool_args ::
  "tool \<Rightarrow> string \<Rightarrow> string list \<Rightarrow> (string \<times> jval) list \<Rightarrow> (string \<times> jval) list" where
  "actual_tool_args tool_to_run lts rc tool_args =
     (let a1 = (if ''long_term_summary'' \<in> set (parameters tool_to_run)
                then AList.update ''long_term_summary'' (JStr lts) tool_args
                else tool_args)
      in if ''retrieved_context'' \<in> set (parameters tool_to_run)
         then AList.update ''retrieved_context'' (JList rc) a1
         else a1)"

text \<open>
  The body of the loop for one request: the tool-result message appended to
  \<open>tool_results_messages\<close>, or the exception that \<open>except Exception\<close> lets through.
\<close>

definition run_tool_call ::
  "(string \<Rightarrow> (string \<times> jval) list \<Rightarrow> outcome) \<Rightarrow> string \<Rightarrow> string list \<Rightarrow> tool_call
     \<Rightarrow> (error + message) \<times> invocation list" where
  "run_tool_call invoke lts rc tc =
     (let tool_name' = call_name tc; tool_args = call_args tc; tool_call_id = call_id tc
      in case find (\<lambda>t. tool_name t = tool_name') tools of
           Some tool_to_run \<Rightarrow>
             (let args = actual_tool_args tool_to_run lts rc tool_args
              in case invoke (tool_name tool_to_run) args of
                   Returned tool_result \<Rightarrow>
                     (Inr (ToolMessage tool_result tool_call_id), [(tool_name tool_to_run, args)])
                 | Raised e \<Rightarrow>
                     (Inr (ToolMessage (''Error executing tool '' @ [sq] @ tool_name' @ [sq] @ '': '' @ e)
                             tool_call_id),
                      [(tool_name tool_to_run, args)])
                 | Escaped e \<Rightarrow> (Inl (BaseException e), [(tool_name tool_to_run, args)]))
         | None \<Rightarrow>
             (Inr (ToolMessage (''Tool '' @ [sq] @ tool_name' @ [sq]
                                  @ '' was requested but not found or not callable.'')
                     tool_call_id), []))"

text \<open>
  The loop \<open>for tool_call in last_ai_message.tool_calls\<close>: an exception that leaves the
  body ends the loop, and the requests after it are not reached.
\<close>

fun run_tool_calls ::
  "(string \<Rightarrow> (string \<times> jval) list \<Rightarrow> outcome) \<Rightarrow> string \<Rightarrow> string list \<Rightarrow> tool_call list
     \<Rightarrow> (error + message list) \<times> invocation list" where
  "run_tool_calls invoke lts rc [] = (Inr [], [])"
| "run_tool_calls invoke lts rc (tc # tcs) =
     (case run_tool_call invoke lts rc tc of
        (Inl e, l) \<Rightarrow> (Inl e, l)
      | (Inr m, l) \<Rightarrow>
          (case run_tool_calls invoke lts rc tcs of
             (Inl e, ls) \<Rightarrow> (Inl e, l @ ls)
           | (Inr ms, ls) \<Rightarrow> (Inr (m # ms), l @ ls)))"

text \<open>
  \<open>tool_executor_node\<close> returns the update \<open>{"messages": ...}\<close>: the model returns that
  list of messages, or the exception that leaves the node, and the invocations made.
  \<open>messages[-1]\<close> raises on an empty list, and only an \<open>AIMessage\<close> has the attribute
  \<open>tool_calls\<close>.
\<close>

definition tool_executor_node ::
  "(string \<Rightarrow> (string \<times> jval) list \<Rightarrow> outcome) \<Rightarrow> state
     \<Rightarrow> (error + message list) \<times> invocation list" where
  "tool_executor_node invoke st =
     (let msgs = messages st
      in if msgs = [] then (Inl IndexError, [])
         else (case last msgs of
                 AIMessage c tcs \<Rightarrow>
                   if tcs = [] then
                     (Inr [AIMessage ''An internal error occurred: No tool calls found.'' []], [])
                   else
                     (let lts = (case long_term_summary st of None \<Rightarrow> [] | Some s \<Rightarrow> s);
                          rc = (case retrieved_context st of None \<Rightarrow> [] | Some r \<Rightarrow> r)
                      in run_tool_calls invoke lts rc tcs)
               | _ \<Rightarrow> (Inl AttributeError, [])))"

text \<open>
  A request whose invocation raises an exception that \<open>except Exception\<close> does not
  catch: it names a registered tool, and the outcome of invoking that tool with the
  request's arguments is \<open>Escaped\<close>.
\<close>

definition escapes ::
  "(string \<Rightarrow> (string \<times> jval) list \<Rightarrow> outcome) \<Rightarrow> string \<Rightarrow> string list \<Rightarrow> tool_call \<Rightarrow> bool" where
  "escapes invoke lts rc tc =
     (case find (\<lambda>t. tool_name t = call_name tc) tools of
        None \<Rightarrow> False
      | Some t \<Rightarrow>
          (case invoke (tool_name t) (actual_tool_args t lts rc (call_args tc)) of
             Escaped e \<Rightarrow> True
           | _ \<Rightarrow> False))"

section \<open>Calculator (src/graph.py, src/agent/nodes/calculator.py)\<close>

text \<open>
  Python's \<open>eval\<close> is the parameter \<open>py_eval\<close>: given the names the expression may use
  and the expression, it returns \<open>str\<close> of the value, raises an exception that
  \<open>except Exception\<close> catches, or raises one that it does not (\<open>eval("exit()")\<close> raises
  \<open>SystemExit\<close>). \<open>eval(expression)\<close> evaluates with the globals of the calling module and
  every builtin; \<open>eval(expr, {"__builtins__": None}, {})\<close> with none.
\<close>

datatype eval_env = CallerGlobals | NoBuiltins

text \<open>The tool \<open>calculator\<close> registered in \<open>tools\<close> (src/graph.py).\<close>

definition calculator :: "(eval_env \<Rightarrow> string \<Rightarrow> outcome) \<Rightarrow> string \<Rightarrow> error + string" where
  "calculator py_eval expression =
     (case py_eval CallerGlobals expression of
        Returned v \<Rightarrow> Inr v
      | Raised e \<Rightarrow> Inr (''Error: Could not calculate '' @ [sq] @ expression @ [sq]
                          @ ''. Please provide a valid mathematical expression. Details: '' @ e)
      | Escaped e \<Rightarrow> Inl (BaseException e))"

text \<open>
  The class \<open>[\d\.\+\-\*\/\(\)\s]\<close> of the validation pattern; \<open>\d\<close> is \<open>0..9\<close> on the
  code points below 256.
\<close>

definition calc_char :: "char \<Rightarrow> bool" where
  "calc_char c = (c \<in> set ''0123456789.+-*/()'' \<or> is_space c)"

text \<open>
  \<open>re.match(r"^[\d\.\+\-\*\/\(\)\s]+$", expr)\<close>: the class repeated greedily at least
  once from the start, giving characters back until \<open>$\<close> holds, which is at the end
  of the string or before a line feed that ends it.
\<close>

definition valid_pattern :: "string \<Rightarrow> bool" where
  "valid_pattern expr =
     (\<exists>k \<in> set (rev [1 ..< Suc (length (takeWhile calc_char expr))]).
        drop k expr = [] \<or> drop k expr = [nl])"

definition upper :: "char \<Rightarrow> char" where
  "upper c = (case map_of (zip ''abcdefghijklmnopqrstuvwxyz'' ''ABCDEFGHIJKLMNOPQRSTUVWXYZ'') c of
                Some u \<Rightarrow> u | None \<Rightarrow> c)"

datatype calc_answer = Answer string | CalculatorError string

text \<open>
  \<open>calculator_tool_node\<close> from the expression on: \<open>llm_text\<close> is the content of the
  language model's reply. The node answers \<open>The answer is <result>.\<close> or a calculator
  error carrying the text of the exception; an exception that \<open>except Exception\<close> does
  not catch leaves the node.
\<close>

definition calculator_tool_node ::
  "(eval_env \<Rightarrow> string \<Rightarrow> outcome) \<Rightarrow> string \<Rightarrow> error + calc_answer" where
  "calculator_tool_node py_eval llm_text =
     (let expr = strip_char sq (strip_char dq (strip llm_text))
      in if contains ''INVALID'' (map upper expr) \<or> \<not> valid_pattern expr then
           Inr (CalculatorError ''Could not extract valid expression.'')
         else (case py_eval NoBuiltins expr of
                 Returned result \<Rightarrow> Inr (Answer (''The answer is '' @ result @ ''.''))
               | Raised e \<Rightarrow> Inr (CalculatorError e)
               | Escaped e \<Rightarrow> Inl (BaseException e)))"

section \<open>SQL sanitiser and fuzzy expansion (src/api/start_api.py)\<close>

text \<open>
  The regular expressions of the source are matched by Python's backtracking matcher:
  the leftmost position at which the pattern matches, alternatives in the order
  written, a greedy repetition longest first, a lazy one shortest first. Each pattern is
  written out below as the function that makes these attempts in this order. Where a
  greedy \<open>\s*\<close> or \<open>\s+\<close> is followed by a character that is not whitespace, only the
  whole run of whitespace can succeed, and the function skips the run at once.
\<close>

fun first_some :: "'a option list \<Rightarrow> 'a option" where
  "first_some [] = None"
| "first_some (x # xs) = (case x of Some y \<Rightarrow> Some y | None \<Rightarrow> first_some xs)"

text \<open>
  Under \<open>re.IGNORECASE\<close> a letter of the pattern matches a character with the same
  lower case. The patterns hold ASCII letters only, and below 256 only the ASCII
  letters have an ASCII lower case. The characters from 256 on that a letter of a
  pattern also matches (U+017F for \<open>s\<close>, U+212A for \<open>k\<close>, U+0130 and U+0131 for \<open>i\<close>) are
  not characters of a \<open>string\<close>: a text that has one is outside this model.
\<close>

definition lower :: "char \<Rightarrow> char" where
  "lower c = (case map_of (zip ''ABCDEFGHIJKLMNOPQRSTUVWXYZ'' ''abcdefghijklmnopqrstuvwxyz'') c of
                Some l \<Rightarrow> l | None \<Rightarrow> c)"

fun ci_prefix :: "string \<Rightarrow> string \<Rightarrow> bool" where
  "ci_prefix [] r = True"
| "ci_prefix (k # ks) [] = False"
| "ci_prefix (k # ks) (c # cs) = (lower c = lower k \<and> ci_prefix ks cs)"

text \<open>
  The class \<open>\w\<close> on the code points below 256: the ASCII letters and digits, the
  underscore, and the letters and numeric characters of Latin-1.
\<close>

definition is_word :: "char \<Rightarrow> bool" where
  "is_word c = (let n = of_char c :: nat
                in (48 \<le> n \<and> n \<le> 57) \<or> (65 \<le> n \<and> n \<le> 90) \<or> n = 95 \<or> (97 \<le> n \<and> n \<le> 122)
                   \<or> n \<in> {170, 178, 179, 181, 185, 186, 188, 189, 190}
                   \<or> (192 \<le> n \<and> n \<le> 214) \<or> (216 \<le> n \<and> n \<le> 246) \<or> 248 \<le> n)"

subsection \<open>Step 1: the code fence\<close>

text \<open>
  \<open>(.*?)\s*```\<close> with \<open>re.DOTALL\<close>, from a position: the shortest group after which
  whitespace and the closing fence follow. The result is the group and the text after
  the fence.
\<close>

fun lazy_to_fence :: "string \<Rightarrow> (string \<times> string) option" where
  "lazy_to_fence [] = None"
| "lazy_to_fence (c # cs) =
     (let r = dropWhile is_space (c # cs)
      in if prefix [bt, bt, bt] r then Some ([], drop 3 r)
         else map_option (\<lambda>(g, rest). (c # g, rest)) (lazy_to_fence cs))"

definition block_tags :: "string list" where
  "block_tags = [''sql'', ''SQL'', ''SQLQuery'', ''mysql'', ''postgresql'']"

text \<open>
  \<open>```(?:sql|SQL|SQLQuery|mysql|postgresql)?\s*(.*?)\s*```\<close> at a position: the
  tags in order and then no tag; after each, the whitespace run from its longest to
  nothing.
\<close>

definition match_block :: "string \<Rightarrow> (string \<times> string) option" where
  "match_block r =
     (if prefix [bt, bt, bt] r then
        (let r1 = drop 3 r;
             after_tag = map (\<lambda>t. drop (length t) r1) (filter (\<lambda>t. prefix t r1) block_tags) @ [r1]
         in first_some (concat (map (\<lambda>r2. map (\<lambda>j. lazy_to_fence (drop j r2))
                                              (rev [0 ..< Suc (length (takeWhile is_space r2))]))
                                    after_tag)))
      else None)"

lemma lazy_to_fence_shorter:
  "lazy_to_fence r = Some (g, rest) \<Longrightarrow> length rest < length r"
proof (induction r arbitrary: g)
  case Nil
  then show ?case by simp
next
  case (Cons c cs)
  show ?case
  proof (cases "prefix [bt, bt, bt] (dropWhile is_space (c # cs))")
    case True
    then have "length [bt, bt, bt] \<le> length (dropWhile is_space (c # cs))"
      by (rule prefix_length_le)
    then have "length (drop 3 (dropWhile is_space (c # cs))) < length (dropWhile is_space (c # cs))"
      by simp
    moreover have "length (dropWhile is_space (c # cs)) \<le> length (c # cs)"
      by (rule length_dropWhile_le)
    moreover have "rest = drop 3 (dropWhile is_space (c # cs))"
      using Cons.prems True by (simp add: Let_def)
    ultimately show ?thesis by simp
  next
    case False
    with Cons.prems obtain g' where "lazy_to_fence cs = Some (g', rest)"
      by (auto simp: Let_def)
    from Cons.IH [OF this] show ?thesis by simp
  qed
qed

lemma first_some_SomeD: "first_some xs = Some y \<Longrightarrow> Some y \<in> set xs"
  by (induction xs) (auto split: option.splits)

lemma match_block_shorter:
  assumes "match_block r = Some (g, rest)"
  shows "length rest < length r"
proof -
  from assms obtain n where "lazy_to_fence (drop n r) = Some (g, rest)"
    by (fastforce simp: match_block_def Let_def split: if_splits dest!: first_some_SomeD)
  then have "length rest < length (drop n r)"
    by (rule lazy_to_fence_shorter)
  then show ?thesis by simp
qed

text \<open>\<open>re.sub(block_pattern, r"\1", text, flags=re.DOTALL)\<close>.\<close>

function sub_block :: "string \<Rightarrow> string" where
  "sub_block [] = []"
| "sub_block (c # cs) =
     (case match_block (c # cs) of
        Some (g, rest) \<Rightarrow> g @ sub_block rest
      | None \<Rightarrow> c # sub_block cs)"
  by pat_completeness auto
termination
  by (relation "measure length") (auto dest: match_block_shorter)

subsection \<open>Step 2: the label\<close>

text \<open>\<open>\s*:\s*\<close> after the label; the result is the text after the match.\<close>

definition after_label :: "string \<Rightarrow> string option" where
  "after_label r =
     (case dropWhile is_space r of
        [] \<Rightarrow> None
      | c # cs \<Rightarrow> if c = CHR '':'' then Some (dropWhile is_space cs) else None)"

text \<open>
  The alternatives of \<open>(?:SQL\s*Query|SQLQuery|MySQL|PostgreSQL|SQL)\<close> at the start of
  the text, in order: for each, the text after it when it matches.
\<close>

definition label_alternatives :: "string \<Rightarrow> string option list" where
  "label_alternatives r =
     [if ci_prefix ''SQL'' r \<and> ci_prefix ''Query'' (dropWhile is_space (drop 3 r))
      then Some (drop 5 (dropWhile is_space (drop 3 r))) else None,
      if ci_prefix ''SQLQuery'' r then Some (drop 8 r) else None,
      if ci_prefix ''MySQL'' r then Some (drop 5 r) else None,
      if ci_prefix ''PostgreSQL'' r then Some (drop 10 r) else None,
      if ci_prefix ''SQL'' r then Some (drop 3 r) else None]"

text \<open>
  \<open>re.sub(prefix_pattern, "", text, flags=re.IGNORECASE)\<close>: without \<open>re.MULTILINE\<close>
  the anchor \<open>^\<close> holds at the start of the text only.
\<close>

definition strip_label :: "string \<Rightarrow> string" where
  "strip_label r =
     (case first_some (map (\<lambda>a. Option.bind a after_label) (label_alternatives r)) of
        Some rest \<Rightarrow> rest
      | None \<Rightarrow> r)"

subsection \<open>Step 3: the first statement\<close>

text \<open>\<open>.*?;\<close> with \<open>re.DOTALL\<close>: up to the first semicolon.\<close>

definition upto_semicolon :: "string \<Rightarrow> string option" where
  "upto_semicolon r =
     (if CHR '';'' \<in> set r then Some (takeWhile (\<lambda>c. c \<noteq> CHR '';'') r @ '';'') else None)"

text \<open>\<open>re.search(r"(SELECT.*?;)", text, flags=re.IGNORECASE | re.DOTALL)\<close>, group 1.\<close>

fun search_select :: "string \<Rightarrow> string option" where
  "search_select [] = None"
| "search_select (c # cs) =
     (if ci_prefix ''SELECT'' (c # cs) then
        (case upto_semicolon (drop 6 (c # cs)) of
           Some body \<Rightarrow> Some (take 6 (c # cs) @ body)
         | None \<Rightarrow> search_select cs)
      else search_select cs)"

subsection \<open>Step 4: backticks\<close>

text \<open>
  \<open>re.sub(r'`([^`]*)`', r'\1', text)\<close>: a backtick with a later backtick loses both, the
  text between them is kept and the scan goes on after the second.
\<close>

function rm_backticks :: "string \<Rightarrow> string" where
  "rm_backticks [] = []"
| "rm_backticks (c # cs) =
     (if c = bt \<and> bt \<in> set cs then
        takeWhile (\<lambda>x. x \<noteq> bt) cs @ rm_backticks (tl (dropWhile (\<lambda>x. x \<noteq> bt) cs))
      else c # rm_backticks cs)"
  by pat_completeness auto
termination
proof (relation "measure length")
  fix c :: char and cs :: string
  have "length (tl (dropWhile (\<lambda>x. x \<noteq> bt) cs)) \<le> length (dropWhile (\<lambda>x. x \<noteq> bt) cs)"
    by simp
  also have "\<dots> \<le> length cs"
    by (rule length_dropWhile_le)
  finally show "(tl (dropWhile (\<lambda>x. x \<noteq> bt) cs), c # cs) \<in> measure length"
    by simp
qed simp_all

subsection \<open>Step 5: whitespace\<close>

text \<open>\<open>re.sub(r'\s+', ' ', text)\<close>.\<close>

function collapse_ws :: "string \<Rightarrow> string" where
  "collapse_ws [] = []"
| "collapse_ws (c # cs) =
     (if is_space c then CHR '' '' # collapse_ws (dropWhile is_space cs)
      else c # collapse_ws cs)"
  by pat_completeness auto
termination
proof (relation "measure length")
  fix c :: char and cs :: string
  have "length (dropWhile is_space cs) \<le> length cs"
    by (rule length_dropWhile_le)
  then show "(dropWhile is_space cs, c # cs) \<in> measure length"
    by simp
qed simp_all

subsection \<open>Step 6: a line feed before each keyword\<close>

definition sql_keywords :: "string list" where
  "sql_keywords = [''SELECT'', ''FROM'', ''WHERE'', ''GROUP BY'', ''HAVING'', ''ORDER BY'',
                   ''LIMIT'', ''JOIN'', ''LEFT JOIN'', ''RIGHT JOIN'', ''INNER JOIN'',
                   ''OUTER JOIN'', ''UNION'', ''VALUES'', ''INSERT'', ''UPDATE'', ''DELETE'']"

definition head :: "string \<Rightarrow> char option" where
  "head r = (case r of [] \<Rightarrow> None | c # _ \<Rightarrow> Some c)"

text \<open>
  \<open>\b\<close> between the character before a position and the one after it (\<open>None\<close> at
  either end of the text): exactly one of the two is a word character.
\<close>

definition word_boundary :: "char option \<Rightarrow> char option \<Rightarrow> bool" where
  "word_boundary p n =
     ((case p of None \<Rightarrow> False | Some c \<Rightarrow> is_word c) \<noteq> (case n of None \<Rightarrow> False | Some c \<Rightarrow> is_word c))"

text \<open>\<open>\bK\b\<close> for the keyword \<open>K\<close>, at the text \<open>r\<close> that follows the character \<open>p\<close>.\<close>

definition kw_at :: "char option \<Rightarrow> string \<Rightarrow> string \<Rightarrow> bool" where
  "kw_at p r k =
     (ci_prefix k r \<and> word_boundary p (head r)
      \<and> word_boundary (head (drop (length k - 1) r)) (head (drop (length k) r)))"

text \<open>The alternation of the keywords in the order of the list; the result is the text matched.\<close>

definition match_kw :: "char option \<Rightarrow> string \<Rightarrow> string option" where
  "match_kw p r = map_option (\<lambda>k. take (length k) r) (find (kw_at p r) sql_keywords)"

lemma match_kw_keyword:
  "match_kw p r = Some m \<Longrightarrow> \<exists>k \<in> set sql_keywords. kw_at p r k \<and> m = take (length k) r"
  by (auto simp: match_kw_def simp: find_Some_iff)

lemma sql_keywords_nonempty: "k \<in> set sql_keywords \<Longrightarrow> k \<noteq> []"
  by (auto simp: sql_keywords_def)

lemma match_kw_nonempty: "match_kw p (c # cs) = Some m \<Longrightarrow> m \<noteq> []"
  by (auto dest!: match_kw_keyword sql_keywords_nonempty)

text \<open>\<open>re.sub(f'({pattern})', r'\n\1', text, flags=re.IGNORECASE)\<close>.\<close>

function insert_nl :: "char option \<Rightarrow> string \<Rightarrow> string" where
  "insert_nl p [] = []"
| "insert_nl p (c # cs) =
     (case match_kw p (c # cs) of
        Some m \<Rightarrow> nl # m @ insert_nl (Some (last m)) (drop (length m) (c # cs))
      | None \<Rightarrow> c # insert_nl (Some c) cs)"
  by pat_completeness auto
termination
  by (relation "measure (\<lambda>(p, r). length r)") (auto dest!: match_kw_nonempty)

subsection \<open>Step 7: final cleanup\<close>

text \<open>
  \<open>\s*\n\<close> after a line feed: the whitespace run from its longest to nothing, until a
  line feed follows; the result is the number of characters matched.
\<close>

definition blank_len :: "string \<Rightarrow> nat option" where
  "blank_len r =
     map_option Suc (find (\<lambda>j. j < length r \<and> r ! j = nl)
                          (rev [0 ..< Suc (length (takeWhile is_space r))]))"

text \<open>\<open>re.sub(r'\n\s*\n', '\n', text)\<close>.\<close>

function collapse_blank :: "string \<Rightarrow> string" where
  "collapse_blank [] = []"
| "collapse_blank (c # cs) =
     (if c = nl then
        (case blank_len cs of
           Some n \<Rightarrow> nl # collapse_blank (drop n cs)
         | None \<Rightarrow> c # collapse_blank cs)
      else c # collapse_blank cs)"
  by pat_completeness auto
termination
  by (relation "measure length") auto

definition clean_sql_query :: "string \<Rightarrow> string" where
  "clean_sql_query text0 =
     (let text1 = sub_block text0;
          text2 = strip_label text1;
          text3 = (case search_select text2 of Some m \<Rightarrow> m | None \<Rightarrow> text2);
          text4 = rm_backticks text3;
          text5 = collapse_ws text4;
          text6 = insert_nl None text5;
          text7 = strip text6
      in collapse_blank text7)"

subsection \<open>Fuzzy expansion\<close>

text \<open>The column alternatives \<open>\"address\"|\"full_description\"|\"services\"\<close>, in double quotes.\<close>

definition columns :: "string list" where
  "columns = [[dq] @ ''address'' @ [dq], [dq] @ ''full_description'' @ [dq],
              [dq] @ ''services'' @ [dq]]"

text \<open>
  \<open>(.*?)%'\<close> without \<open>re.DOTALL\<close>: the shortest keyword, free of line feeds, after which
  \<open>%'\<close> follows. The result is the keyword and the text after the match.
\<close>

fun lazy_kw :: "string \<Rightarrow> (string \<times> string) option" where
  "lazy_kw [] = None"
| "lazy_kw (c # cs) =
     (if prefix [CHR ''%'', sq] (c # cs) then Some ([], drop 2 (c # cs))
      else if c = nl then None
      else map_option (\<lambda>(kw, rest). (c # kw, rest)) (lazy_kw cs))"

text \<open>\<open>\s+\<close> before a character that is not whitespace.\<close>

definition skip_ws1 :: "string \<Rightarrow> string option" where
  "skip_ws1 r =
     (case r of
        [] \<Rightarrow> None
      | c # cs \<Rightarrow> if is_space c then Some (dropWhile is_space cs) else None)"

text \<open>
  \<open>("address"|"full_description"|"services")\s+LIKE\s+'%(.*?)%'\<close> at a position: the
  column as the text has it, the keyword, and the text after the match.
\<close>

definition match_clause :: "string \<Rightarrow> (string \<times> string \<times> string) option" where
  "match_clause r =
     first_some (map (\<lambda>col.
        if ci_prefix col r then
          (case skip_ws1 (drop (length col) r) of
             None \<Rightarrow> None
           | Some r1 \<Rightarrow>
               if ci_prefix ''LIKE'' r1 then
                 (case skip_ws1 (drop 4 r1) of
                    None \<Rightarrow> None
                  | Some r2 \<Rightarrow>
                      if prefix [sq, CHR ''%''] r2 then
                        (case lazy_kw (drop 2 r2) of
                           None \<Rightarrow> None
                         | Some (kw, rest) \<Rightarrow> Some (take (length col) r, kw, rest))
                      else None)
               else None)
        else None) columns)"

text \<open>
  \<open>[^;]*?\<close> and then the clause: the fewest characters other than a semicolon after
  which the clause matches. The result is the text skipped, the column, the keyword and
  the text after the match.
\<close>

fun lazy_clause :: "string \<Rightarrow> (string \<times> string \<times> string \<times> string) option" where
  "lazy_clause [] = None"
| "lazy_clause (c # cs) =
     (case match_clause (c # cs) of
        Some (col, kw, rest) \<Rightarrow> Some ([], col, kw, rest)
      | None \<Rightarrow>
          if c = CHR '';'' then None
          else map_option (\<lambda>(skipped, col, kw, rest). (c # skipped, col, kw, rest)) (lazy_clause cs))"

text \<open>
  The whole pattern at a position: \<open>WHERE\<close>, then the whitespace run from its longest down
  to one character, then the rest. The first component is group 1.
\<close>

definition match_fuzzy :: "string \<Rightarrow> (string \<times> string \<times> string \<times> string) option" where
  "match_fuzzy r =
     (if ci_prefix ''WHERE'' r then
        first_some (map (\<lambda>j. map_option (\<lambda>(skipped, col, kw, rest). (take (5 + j) r @ skipped, col, kw, rest))
                                           (lazy_clause (drop (5 + j) r)))
                        (rev [1 ..< Suc (length (takeWhile is_space (drop 5 r)))]))
      else None)"

lemma lazy_kw_shorter: "lazy_kw r = Some (kw, rest) \<Longrightarrow> length rest < length r"
  by (induction r arbitrary: kw) (auto split: if_splits)

lemma skip_ws1_shorter: "skip_ws1 r = Some r1 \<Longrightarrow> length r1 < length r"
proof (cases r)
  case Nil
  then show "skip_ws1 r = Some r1 \<Longrightarrow> length r1 < length r"
    by (simp add: skip_ws1_def)
next
  case (Cons c cs)
  have "length (dropWhile is_space cs) \<le> length cs"
    by (rule length_dropWhile_le)
  with Cons show "skip_ws1 r = Some r1 \<Longrightarrow> length r1 < length r"
    by (auto simp: skip_ws1_def split: if_splits)
qed

lemma match_clause_shorter:
  assumes "match_clause r = Some (col, kw, rest)"
  shows "length rest < length r"
proof -
  from assms have "\<exists>n r1 r2. skip_ws1 (drop n r) = Some r1 \<and> skip_ws1 (drop 4 r1) = Some r2
                      \<and> lazy_kw (drop 2 r2) = Some (kw, rest)"
    unfolding match_clause_def
    by (auto dest!: first_some_SomeD split: if_splits option.splits) blast
  then obtain n r1 r2 where
    r1: "skip_ws1 (drop n r) = Some r1" and
    r2: "skip_ws1 (drop 4 r1) = Some r2" and
    kw: "lazy_kw (drop 2 r2) = Some (kw, rest)"
    by blast
  from kw have "length rest < length (drop 2 r2)"
    by (rule lazy_kw_shorter)
  moreover from r2 have "length r2 < length (drop 4 r1)"
    by (rule skip_ws1_shorter)
  moreover from r1 have "length r1 < length (drop n r)"
    by (rule skip_ws1_shorter)
  ultimately show ?thesis by simp
qed

lemma lazy_clause_shorter:
  "lazy_clause r = Some (skipped, col, kw, rest) \<Longrightarrow> length rest < length r"
proof (induction r arbitrary: skipped)
  case Nil
  then show ?case by simp
next
  case (Cons c cs)
  show ?case
  proof (cases "match_clause (c # cs)")
    case (Some t)
    with Cons.prems show ?thesis
      by (auto dest: match_clause_shorter)
  next
    case None
    with Cons.prems obtain s' where "lazy_clause cs = Some (s', col, kw, rest)"
      by (auto split: if_splits)
    from Cons.IH [OF this] show ?thesis by simp
  qed
qed

lemma match_fuzzy_shorter:
  assumes "match_fuzzy r = Some (g1, col, kw, rest)"
  shows "length rest < length r"
proof -
  from assms have "Some (g1, col, kw, rest)
      \<in> set (map (\<lambda>j. map_option (\<lambda>(skipped, col, kw, rest). (take (5 + j) r @ skipped, col, kw, rest))
                                   (lazy_clause (drop (5 + j) r)))
                    (rev [1 ..< Suc (length (takeWhile is_space (drop 5 r)))]))"
    unfolding match_fuzzy_def
    by (cases "ci_prefix ''WHERE'' r") (auto simp only: if_True if_False dest!: first_some_SomeD)
  then obtain n where
    "Some (g1, col, kw, rest)
       = map_option (\<lambda>(skipped, col, kw, rest). (take (5 + n) r @ skipped, col, kw, rest))
           (lazy_clause (drop (5 + n) r))"
    unfolding set_map by (rule imageE)
  then obtain s where "lazy_clause (drop (5 + n) r) = Some (s, col, kw, rest)"
    by (cases "lazy_clause (drop (5 + n) r)") auto
  then have "length rest < length (drop (5 + n) r)"
    by (rule lazy_clause_shorter)
  then show ?thesis by simp
qed

text \<open>\<open>pattern.findall(sql)\<close>: the groups of the matches, from left to right.\<close>

function findall_fuzzy :: "string \<Rightarrow> (string \<times> string \<times> string) list" where
  "findall_fuzzy [] = []"
| "findall_fuzzy (c # cs) =
     (case match_fuzzy (c # cs) of
        Some (g1, col, kw, rest) \<Rightarrow> (g1, col, kw) # findall_fuzzy rest
      | None \<Rightarrow> findall_fuzzy cs)"
  by pat_completeness auto
termination
  by (relation "measure length") (auto dest: match_fuzzy_shorter)

text \<open>
  \<open>s.replace(old, new)\<close>: every occurrence of \<open>old\<close>, from left to right and without
  overlap; with an empty \<open>old\<close>, \<open>new\<close> goes before every character and at the end.
\<close>

function replace_nonempty :: "string \<Rightarrow> string \<Rightarrow> string \<Rightarrow> string" where
  "replace_nonempty [] old new = []"
| "replace_nonempty (c # cs) old new =
     (if old \<noteq> [] \<and> prefix old (c # cs) then new @ replace_nonempty (drop (length old) (c # cs)) old new
      else c # replace_nonempty cs old new)"
  by pat_completeness auto
termination
  by (relation "measure (\<lambda>(s, old, new). length s)") auto

definition replace :: "string \<Rightarrow> string \<Rightarrow> string \<Rightarrow> string" where
  "replace s old new =
     (if old = [] then new @ concat (map (\<lambda>c. c # new) s) else replace_nonempty s old new)"

text \<open>The f-string \<open>fuzzy_clause\<close> of the source.\<close>

definition fuzzy_clause :: "string \<Rightarrow> string \<Rightarrow> string" where
  "fuzzy_clause column keyword =
     ''('' @ column @ '' LIKE '' @ [sq] @ ''%'' @ keyword @ ''%'' @ [sq]
       @ '' OR REPLACE('' @ column @ '', '' @ [sq] @ '' '' @ [sq] @ '', '' @ [sq, sq]
       @ '') LIKE '' @ [sq] @ ''%'' @ filter (\<lambda>c. c \<noteq> CHR '' '') keyword @ ''%'' @ [sq] @ '')''"

definition expand_fuzzy_sql :: "string \<Rightarrow> string" where
  "expand_fuzzy_sql sql =
     foldl (\<lambda>sql (full_match, column, keyword).
              replace sql (column @ '' LIKE '' @ [sq] @ ''%'' @ keyword @ ''%'' @ [sq])
                          (fuzzy_clause column keyword))
           sql (findall_fuzzy sql)"

section \<open>The endpoint /outlets (src/api/start_api.py)\<close>

datatype http_error = HTTP503 string | HTTP500 string | Unhandled error

definition no_information :: string where
  "no_information = ''I couldn'' @ [sq] @ ''t find any information for your query. ''
                    @ ''Please try rephrasing it or searching for a different outlet.''"

text \<open>
  \<open>get_outlet_info\<close>. The chain that writes the SQL and the tool that runs it are the
  parameters \<open>generate_query\<close> and \<open>execute_query\<close>, \<open>None\<close> when the module could not set
  them up; each returns its text or raises, with the text of the exception. The two
  memory parameters are sliced for the log line before the \<open>try\<close>, which raises when one
  is \<open>None\<close>. The result is the value of \<open>query_response\<close>.
\<close>

definition get_outlet_info ::
  "(string \<Rightarrow> string + string) option \<Rightarrow> (string \<Rightarrow> string + string) option
     \<Rightarrow> string \<Rightarrow> string option \<Rightarrow> string option \<Rightarrow> http_error + string" where
  "get_outlet_info generate_query execute_query query lts rc =
     (case (generate_query, execute_query) of
        (Some generate, Some execute) \<Rightarrow>
          (if lts = None \<or> rc = None then Inl (Unhandled TypeError)
           else (case generate query of
                   Inl e \<Rightarrow> Inl (HTTP500 (''Failed to retrieve outlet information: '' @ e))
                 | Inr raw_sql_query \<Rightarrow>
                     (let cleaned_sql_query = clean_sql_query raw_sql_query;
                          fuzzy_sql_query = expand_fuzzy_sql cleaned_sql_query
                      in case execute fuzzy_sql_query of
                           Inl e \<Rightarrow> Inl (HTTP500 (''Failed to retrieve outlet information: '' @ e))
                         | Inr result \<Rightarrow>
                             if result = [] \<or> contains ''[]'' result then Inr no_information
                             else Inr result)))
      | _ \<Rightarrow> Inl (HTTP503 ''Outlets database or SQL chain not ready.''))"

section \<open>Properties of texts\<close>

text \<open>The ASCII letters.\<close>

definition is_letter :: "char \<Rightarrow> bool" where
  "is_letter c = (let n = of_char c :: nat in (65 \<le> n \<and> n \<le> 90) \<or> (97 \<le> n \<and> n \<le> 122))"

text \<open>
  A statement: six letters that read \<open>SELECT\<close> in some letter case, then a body, with a
  semicolon as the last character and nowhere else.
\<close>

definition statement :: "string \<Rightarrow> bool" where
  "statement t = (ci_prefix ''SELECT'' t \<and> t \<noteq> [] \<and> last t = CHR '';''
                  \<and> filter (\<lambda>c. c = CHR '';'') t = '';'')"

text \<open>In the text after the character \<open>p\<close>, every line feed follows a space.\<close>

fun nl_after_space :: "char \<Rightarrow> string \<Rightarrow> bool" where
  "nl_after_space p [] = True"
| "nl_after_space p (c # cs) = ((c = nl \<longrightarrow> p = CHR '' '') \<and> nl_after_space c cs)"

definition spaced :: "string \<Rightarrow> bool" where
  "spaced x = (case x of [] \<Rightarrow> True | c # cs \<Rightarrow> c \<noteq> nl \<and> nl_after_space c cs)"

text \<open>Every line feed is followed by a character that is not whitespace.\<close>

fun nl_tight :: "string \<Rightarrow> bool" where
  "nl_tight [] = True"
| "nl_tight (c # cs) = ((c = nl \<longrightarrow> cs \<noteq> [] \<and> \<not> is_space (hd cs)) \<and> nl_tight cs)"

section \<open>Memory eviction\<close>

text \<open>
  C1. When more than 10 turns are not system turns and the summariser returns a text,
  \<open>manage_memory_node\<close> summarises the oldest 5 of them (their human and assistant turns,
  with the existing summary) and returns the state whose messages are the system turns
  followed by the remaining conversational turns, and whose long-term summary is the
  new summary; from exactly 11 conversational turns, 6 remain. With at most 10, the
  state is returned as it was given.
\<close>

theorem manage_memory_node_evicts:
  "(length (filter (\<lambda>m. \<not> is_system m) (messages st)) > 10 \<and>
    summary_chain (filter is_human_or_ai (take 5 (filter (\<lambda>m. \<not> is_system m) (messages st))))
       (case long_term_summary st of None \<Rightarrow> ''No prior summary.'' | Some s \<Rightarrow> s) = Inr raw
    \<longrightarrow> manage_memory_node summary_chain vs st =
          Inr (st\<lparr>messages := filter is_system (messages st)
                                 @ drop 5 (filter (\<lambda>m. \<not> is_system m) (messages st)),
                  long_term_summary := Some (strip raw)\<rparr>,
               if strip raw \<noteq> [] then vs @ [strip raw] else vs) \<and>
        (length (filter (\<lambda>m. \<not> is_system m) (messages st)) = 11
           \<longrightarrow> length (filter (\<lambda>m. \<not> is_system m)
                        (filter is_system (messages st)
                           @ drop 5 (filter (\<lambda>m. \<not> is_system m) (messages st)))) = 6))
   \<and> (length (filter (\<lambda>m. \<not> is_system m) (messages st)) \<le> 10
        \<longrightarrow> manage_memory_node summary_chain vs st = Inr (st, vs))"
proof -
  have sys: "filter (\<lambda>m. \<not> is_system m) (filter is_system xs) = []" for xs
    by (induction xs) auto
  have conv: "filter (\<lambda>m. \<not> is_system m) (drop n (filter (\<lambda>m. \<not> is_system m) xs))
                = drop n (filter (\<lambda>m. \<not> is_system m) xs)" for n xs
    by (rule filter_True) (auto dest: in_set_dropD)
  show ?thesis
    by (auto simp: manage_memory_node_def MAX_RECENT_MESSAGES_def
          MESSAGES_TO_SUMMARIZE_PER_BATCH_def Let_def sys conv)
qed

text \<open>
  An instance of each half: twelve messages of which eleven are conversational, and a
  short conversation that is left alone.
\<close>

theorem manage_memory_node_evicts_witness:
  "manage_memory_node (\<lambda>ms s. Inr ('' User greets; '' @ s @ '' ''))  [[]]
     \<lparr>messages = [SystemMessage ''sys'', HumanMessage ''1'', AIMessage ''2'' [], HumanMessage ''3'',
                  ToolMessage ''4'' ''c'', AIMessage ''5'' [], HumanMessage ''6'', AIMessage ''7'' [],
                  HumanMessage ''8'', AIMessage ''9'' [], HumanMessage ''10'', HumanMessage ''11''],
      long_term_summary = None, retrieved_context = None, intent = None,
      next_action_type = None, slots = None\<rparr>
   = Inr (\<lparr>messages = [SystemMessage ''sys'', HumanMessage ''6'', AIMessage ''7'' [],
                  HumanMessage ''8'', AIMessage ''9'' [], HumanMessage ''10'', HumanMessage ''11''],
      long_term_summary = Some ''User greets; No prior summary.'', retrieved_context = None,
      intent = None, next_action_type = None, slots = None\<rparr>,
      [[], ''User greets; No prior summary.''])
   \<and> manage_memory_node (\<lambda>ms s. Inr ''unused'') [[]]
     \<lparr>messages = [SystemMessage ''sys'', HumanMessage ''1'', AIMessage ''2'' []],
      long_term_summary = None, retrieved_context = None, intent = None,
      next_action_type = None, slots = None\<rparr>
   = Inr (\<lparr>messages = [SystemMessage ''sys'', HumanMessage ''1'', AIMessage ''2'' []],
      long_term_summary = None, retrieved_context = None, intent = None,
      next_action_type = None, slots = None\<rparr>, [[]])"
  using manage_memory_node_evicts [of
     "\<lparr>messages = [SystemMessage ''sys'', HumanMessage ''1'', AIMessage ''2'' [], HumanMessage ''3'',
                  ToolMessage ''4'' ''c'', AIMessage ''5'' [], HumanMessage ''6'', AIMessage ''7'' [],
                  HumanMessage ''8'', AIMessage ''9'' [], HumanMessage ''10'', HumanMessage ''11''],
      long_term_summary = None, retrieved_context = None, intent = None,
      next_action_type = None, slots = None\<rparr>"
     "\<lambda>ms s. Inr ('' User greets; '' @ s @ '' '')" "'' User greets; No prior summary. ''" "[[]]"]
   manage_memory_node_evicts [of
     "\<lparr>messages = [SystemMessage ''sys'', HumanMessage ''1'', AIMessage ''2'' []],
      long_term_summary = None, retrieved_context = None, intent = None,
      next_action_type = None, slots = None\<rparr>"
     "\<lambda>ms s. Inr ''unused''" "[]" "[[]]"]
  by (simp add: strip_def is_space_def)


text \<open>
  C10. When eviction fires and the summariser's text strips to the empty string, the
  batch is still evicted, nothing is appended to the index, and the long-term summary
  of the returned state is the empty string, whatever the previous summary was.
\<close>

theorem manage_memory_node_blank_summary:
  assumes "length (filter (\<lambda>m. \<not> is_system m) (messages st)) > 10"
    and "summary_chain (filter is_human_or_ai (take 5 (filter (\<lambda>m. \<not> is_system m) (messages st))))
           (case long_term_summary st of None \<Rightarrow> ''No prior summary.'' | Some s \<Rightarrow> s) = Inr raw"
    and "strip raw = []"
  shows "manage_memory_node summary_chain vs st =
           Inr (st\<lparr>messages := filter is_system (messages st)
                                  @ drop 5 (filter (\<lambda>m. \<not> is_system m) (messages st)),
                   long_term_summary := Some []\<rparr>, vs)"
  using assms
  by (simp add: manage_memory_node_def MAX_RECENT_MESSAGES_def
        MESSAGES_TO_SUMMARIZE_PER_BATCH_def Let_def)

text \<open>
  An instance: the summariser answers a space and a line feed; the earlier summary is
  replaced by the empty string and the index keeps its two entries.
\<close>

theorem manage_memory_node_blank_summary_witness:
  "manage_memory_node (\<lambda>ms s. Inr [CHR '' '', nl]) [[], ''earlier summary'']
     \<lparr>messages = [HumanMessage ''1'', AIMessage ''2'' [], HumanMessage ''3'',
                  AIMessage ''4'' [], HumanMessage ''5'', AIMessage ''6'' [], HumanMessage ''7'',
                  AIMessage ''8'' [], HumanMessage ''9'', AIMessage ''10'' [], HumanMessage ''11''],
      long_term_summary = Some ''earlier summary'', retrieved_context = None, intent = None,
      next_action_type = None, slots = None\<rparr>
   = Inr (\<lparr>messages = [AIMessage ''6'' [], HumanMessage ''7'',
                  AIMessage ''8'' [], HumanMessage ''9'', AIMessage ''10'' [], HumanMessage ''11''],
      long_term_summary = Some [], retrieved_context = None,
      intent = None, next_action_type = None, slots = None\<rparr>,
      [[], ''earlier summary''])"
  using manage_memory_node_blank_summary [of
     "\<lparr>messages = [HumanMessage ''1'', AIMessage ''2'' [], HumanMessage ''3'',
                  AIMessage ''4'' [], HumanMessage ''5'', AIMessage ''6'' [], HumanMessage ''7'',
                  AIMessage ''8'' [], HumanMessage ''9'', AIMessage ''10'' [], HumanMessage ''11''],
      long_term_summary = Some ''earlier summary'', retrieved_context = None, intent = None,
      next_action_type = None, slots = None\<rparr>"
     "\<lambda>ms s. Inr [CHR '' '', nl]" "[CHR '' '', nl]" "[[], ''earlier summary'']"]
  by (simp add: strip_def is_space_def)

section \<open>Tool dispatch\<close>

lemma find_tools:
  "find (\<lambda>t. tool_name t = n) tools =
     (if n = ''calculator'' then Some \<lparr>tool_name = ''calculator'', parameters = [''expression'']\<rparr>
      else if n = ''get_product_info'' then
        Some \<lparr>tool_name = ''get_product_info'',
              parameters = [''query'', ''long_term_summary'', ''retrieved_context'']\<rparr>
      else if n = ''get_outlet_details'' then
        Some \<lparr>tool_name = ''get_outlet_details'',
              parameters = [''query'', ''long_term_summary'', ''retrieved_context'']\<rparr>
      else None)"
  by (auto simp: tools_def)

lemma snd_run_tool_call:
  "map fst (snd (run_tool_call invoke lts rc tc)) =
     (if call_name tc \<in> set (map tool_name tools) then [call_name tc] else [])"
  by (auto simp: run_tool_call_def find_tools Let_def tools_def split: outcome.splits)

lemma run_tool_call_escapes:
  "escapes invoke lts rc tc \<Longrightarrow> \<exists>e. fst (run_tool_call invoke lts rc tc) = Inl (BaseException e)"
  by (auto simp: escapes_def run_tool_call_def Let_def split: option.splits outcome.splits)

lemma run_tool_call_no_escape:
  "\<not> escapes invoke lts rc tc \<Longrightarrow>
     \<exists>txt. fst (run_tool_call invoke lts rc tc) = Inr (ToolMessage txt (call_id tc)) \<and>
       (case find (\<lambda>t. tool_name t = call_name tc) tools of
          None \<Rightarrow> txt = ''Tool '' @ [sq] @ call_name tc @ [sq]
                          @ '' was requested but not found or not callable.''
        | Some t \<Rightarrow>
            (case invoke (tool_name t) (actual_tool_args t lts rc (call_args tc)) of
               Returned tool_result \<Rightarrow> txt = tool_result
             | Raised e \<Rightarrow> txt = ''Error executing tool '' @ [sq] @ call_name tc @ [sq] @ '': '' @ e
             | Escaped e \<Rightarrow> False))"
  by (auto simp: escapes_def run_tool_call_def Let_def split: option.splits outcome.splits)

lemma run_tool_calls_no_escape:
  "\<forall>tc \<in> set tcs. \<not> escapes invoke lts rc tc \<Longrightarrow>
     run_tool_calls invoke lts rc tcs =
       (Inr (map (\<lambda>tc. projr (fst (run_tool_call invoke lts rc tc))) tcs),
        concat (map (\<lambda>tc. snd (run_tool_call invoke lts rc tc)) tcs))"
proof (induction tcs)
  case Nil
  show ?case by simp
next
  case (Cons tc tcs)
  from Cons.prems obtain s where "fst (run_tool_call invoke lts rc tc) = Inr (ToolMessage s (call_id tc))"
    using run_tool_call_no_escape [of invoke lts rc tc] by auto
  moreover from Cons have "run_tool_calls invoke lts rc tcs =
       (Inr (map (\<lambda>tc. projr (fst (run_tool_call invoke lts rc tc))) tcs),
        concat (map (\<lambda>tc. snd (run_tool_call invoke lts rc tc)) tcs))" by simp
  ultimately show ?case
    by (cases "run_tool_call invoke lts rc tc") simp
qed

lemma run_tool_calls_escape:
  assumes "\<forall>x \<in> set pre. \<not> escapes invoke lts rc x"
    and "fst (run_tool_call invoke lts rc tc) = Inl err"
  shows "run_tool_calls invoke lts rc (pre @ tc # post) =
           (Inl err, concat (map (\<lambda>tc. snd (run_tool_call invoke lts rc tc)) (pre @ [tc])))"
  using assms(1)
proof (induction pre)
  case Nil
  from assms(2) show ?case
    by (cases "run_tool_call invoke lts rc tc") simp
next
  case (Cons x pre)
  from Cons.prems obtain s where "fst (run_tool_call invoke lts rc x) = Inr (ToolMessage s (call_id x))"
    using run_tool_call_no_escape [of invoke lts rc x] by auto
  moreover from Cons have "run_tool_calls invoke lts rc (pre @ tc # post) =
           (Inl err, concat (map (\<lambda>tc. snd (run_tool_call invoke lts rc tc)) (pre @ [tc])))" by simp
  ultimately show ?case
    by (cases "run_tool_call invoke lts rc x") simp
qed

lemma invoked_names:
  "map fst (concat (map (\<lambda>tc. snd (run_tool_call invoke lts rc tc)) xs))
     = filter (\<lambda>n. n \<in> set (map tool_name tools)) (map call_name xs)"
  by (induction xs) (simp_all add: snd_run_tool_call del: set_map)

text \<open>
  C3, as the code has it. The loop runs over every tool-call request of the turn: a
  turn with two requests has both executed, in order.
\<close>

theorem tool_executor_node_second_call_counterexample:
  "tool_executor_node (\<lambda>n a. Returned (''result of '' @ n))
     \<lparr>messages = [HumanMessage ''what is 2+2 and where is the SS 2 outlet'',
                  AIMessage [] [\<lparr>call_name = ''calculator'',
                                   call_args = [(''expression'', JStr ''2+2'')], call_id = ''call_1''\<rparr>,
                                 \<lparr>call_name = ''get_outlet_details'',
                                   call_args = [(''query'', JStr ''SS 2'')], call_id = ''call_2''\<rparr>]],
      long_term_summary = Some ''s'', retrieved_context = Some [], intent = None,
      next_action_type = Some ''tool_call'', slots = None\<rparr>
   = (Inr [ToolMessage ''result of calculator'' ''call_1'',
           ToolMessage ''result of get_outlet_details'' ''call_2''],
      [(''calculator'', [(''expression'', JStr ''2+2'')]),
       (''get_outlet_details'',
        [(''query'', JStr ''SS 2''), (''long_term_summary'', JStr ''s''),
         (''retrieved_context'', JList [])])])"
  by (simp add: tool_executor_node_def run_tool_call_def actual_tool_args_def tools_def Let_def)

text \<open>
  C3, amended. For a turn whose last message is an assistant message with tool-call
  requests, the executor goes through the requests in order and does not stop after the
  first. When no invocation raises an exception that \<open>except Exception\<close> lets through,
  it produces one message per request and invokes every request that names a
  registered tool. Otherwise the exception leaves the executor at the first such
  request: the requests up to and including that one are invoked, the later ones are
  not.
\<close>

theorem tool_executor_node_dispatches_all:
  assumes "messages st \<noteq> []" and "last (messages st) = AIMessage c tcs" and "tcs \<noteq> []"
  shows "((\<forall>tc \<in> set tcs. \<not> escapes invoke
                (case long_term_summary st of None \<Rightarrow> [] | Some s \<Rightarrow> s)
                (case retrieved_context st of None \<Rightarrow> [] | Some r \<Rightarrow> r) tc) \<longrightarrow>
           (\<exists>ms log. tool_executor_node invoke st = (Inr ms, log) \<and> length ms = length tcs \<and>
              map fst log = filter (\<lambda>n. n \<in> set (map tool_name tools)) (map call_name tcs)))
       \<and> (\<forall>pre tc post.
             tcs = pre @ tc # post \<and>
             (\<forall>x \<in> set pre. \<not> escapes invoke
                (case long_term_summary st of None \<Rightarrow> [] | Some s \<Rightarrow> s)
                (case retrieved_context st of None \<Rightarrow> [] | Some r \<Rightarrow> r) x) \<and>
             escapes invoke
                (case long_term_summary st of None \<Rightarrow> [] | Some s \<Rightarrow> s)
                (case retrieved_context st of None \<Rightarrow> [] | Some r \<Rightarrow> r) tc \<longrightarrow>
             (\<exists>e log. tool_executor_node invoke st = (Inl (BaseException e), log) \<and>
                map fst log = filter (\<lambda>n. n \<in> set (map tool_name tools))
                                (map call_name (pre @ [tc]))))"
proof -
  let ?lts = "case long_term_summary st of None \<Rightarrow> [] | Some s \<Rightarrow> s"
  let ?rc = "case retrieved_context st of None \<Rightarrow> [] | Some r \<Rightarrow> r"
  from assms have node: "tool_executor_node invoke st = run_tool_calls invoke ?lts ?rc tcs"
    by (simp add: tool_executor_node_def Let_def)
  have a: "\<exists>ms log. run_tool_calls invoke ?lts ?rc tcs = (Inr ms, log) \<and> length ms = length tcs \<and>
              map fst log = filter (\<lambda>n. n \<in> set (map tool_name tools)) (map call_name tcs)"
    if "\<forall>tc \<in> set tcs. \<not> escapes invoke ?lts ?rc tc"
  proof (intro exI conjI)
    show "run_tool_calls invoke ?lts ?rc tcs =
       (Inr (map (\<lambda>tc. projr (fst (run_tool_call invoke ?lts ?rc tc))) tcs),
        concat (map (\<lambda>tc. snd (run_tool_call invoke ?lts ?rc tc)) tcs))"
      by (rule run_tool_calls_no_escape [OF that])
    show "length (map (\<lambda>tc. projr (fst (run_tool_call invoke ?lts ?rc tc))) tcs) = length tcs"
      by (rule length_map)
    show "map fst (concat (map (\<lambda>tc. snd (run_tool_call invoke ?lts ?rc tc)) tcs))
            = filter (\<lambda>n. n \<in> set (map tool_name tools)) (map call_name tcs)"
      by (rule invoked_names)
  qed
  have b: "\<exists>e log. run_tool_calls invoke ?lts ?rc tcs = (Inl (BaseException e), log) \<and>
                map fst log = filter (\<lambda>n. n \<in> set (map tool_name tools)) (map call_name (pre @ [tc]))"
    if split: "tcs = pre @ tc # post" and pre: "\<forall>x \<in> set pre. \<not> escapes invoke ?lts ?rc x"
      and tc: "escapes invoke ?lts ?rc tc" for pre tc post
  proof -
    from tc obtain e where e: "fst (run_tool_call invoke ?lts ?rc tc) = Inl (BaseException e)"
      using run_tool_call_escapes by blast
    show ?thesis
    proof (intro exI conjI)
      show "run_tool_calls invoke ?lts ?rc tcs =
              (Inl (BaseException e),
               concat (map (\<lambda>tc. snd (run_tool_call invoke ?lts ?rc tc)) (pre @ [tc])))"
        unfolding split by (rule run_tool_calls_escape [OF pre e])
      show "map fst (concat (map (\<lambda>tc. snd (run_tool_call invoke ?lts ?rc tc)) (pre @ [tc])))
              = filter (\<lambda>n. n \<in> set (map tool_name tools)) (map call_name (pre @ [tc]))"
        by (rule invoked_names)
    qed
  qed
  show ?thesis
    unfolding node
  proof (intro conjI impI allI)
    assume "\<forall>tc \<in> set tcs. \<not> escapes invoke ?lts ?rc tc"
    then show "\<exists>ms log. run_tool_calls invoke ?lts ?rc tcs = (Inr ms, log) \<and> length ms = length tcs \<and>
              map fst log = filter (\<lambda>n. n \<in> set (map tool_name tools)) (map call_name tcs)"
      by (rule a)
  next
    fix pre tc post
    assume h: "tcs = pre @ tc # post \<and> (\<forall>x \<in> set pre. \<not> escapes invoke ?lts ?rc x)
                 \<and> escapes invoke ?lts ?rc tc"
    show "\<exists>e log. run_tool_calls invoke ?lts ?rc tcs = (Inl (BaseException e), log) \<and>
                map fst log = filter (\<lambda>n. n \<in> set (map tool_name tools)) (map call_name (pre @ [tc]))"
      by (rule b [OF h [THEN conjunct1] h [THEN conjunct2, THEN conjunct1]
                     h [THEN conjunct2, THEN conjunct2]])
  qed
qed


text \<open>
  Two instances with three requests, the second naming an unregistered tool: in the
  first the calculator, called without its argument, raises a validation error; in the
  second the evaluation of \<open>exit()\<close> raises \<open>SystemExit\<close>.
\<close>

theorem tool_executor_node_dispatches_all_witness:
  "(\<exists>ms log. tool_executor_node
        (\<lambda>n a. if n = ''calculator'' then Raised ''1 validation error for calculator'' else Returned ''ok'')
        \<lparr>messages = [AIMessage [] [\<lparr>call_name = ''calculator'', call_args = [], call_id = ''a''\<rparr>,
                                    \<lparr>call_name = ''weather'', call_args = [], call_id = ''b''\<rparr>,
                                    \<lparr>call_name = ''get_product_info'',
                                     call_args = [(''query'', JStr ''latte'')], call_id = ''c''\<rparr>]],
         long_term_summary = None, retrieved_context = None, intent = None,
         next_action_type = None, slots = None\<rparr> = (Inr ms, log)
      \<and> length ms = 3 \<and> map fst log = [''calculator'', ''get_product_info''])
   \<and> (\<exists>e log. tool_executor_node
        (\<lambda>n a. if n = ''calculator'' then Escaped ''SystemExit'' else Returned ''ok'')
        \<lparr>messages = [AIMessage [] [\<lparr>call_name = ''get_product_info'',
                                     call_args = [(''query'', JStr ''latte'')], call_id = ''a''\<rparr>,
                                    \<lparr>call_name = ''calculator'',
                                     call_args = [(''expression'', JStr ''exit()'')], call_id = ''b''\<rparr>,
                                    \<lparr>call_name = ''get_outlet_details'',
                                     call_args = [(''query'', JStr ''SS 2'')], call_id = ''c''\<rparr>]],
         long_term_summary = None, retrieved_context = None, intent = None,
         next_action_type = None, slots = None\<rparr> = (Inl (BaseException e), log)
      \<and> map fst log = [''get_product_info'', ''calculator''])"
proof (rule conjI)
  let ?tcs = "[\<lparr>call_name = ''calculator'', call_args = [], call_id = ''a''\<rparr>,
               \<lparr>call_name = ''weather'', call_args = [], call_id = ''b''\<rparr>,
               \<lparr>call_name = ''get_product_info'',
                call_args = [(''query'', JStr ''latte'')], call_id = ''c''\<rparr>]"
  let ?st = "\<lparr>messages = [AIMessage [] ?tcs],
         long_term_summary = None, retrieved_context = None, intent = None,
         next_action_type = None, slots = None\<rparr>"
  let ?inv = "\<lambda>(n :: string) (a :: (string \<times> jval) list).
                 if n = ''calculator'' then Raised ''1 validation error for calculator''
                 else Returned ''ok''"
  have shape: "messages ?st \<noteq> []" "last (messages ?st) = AIMessage [] ?tcs" "?tcs \<noteq> []"
    by simp_all
  have ne: "\<forall>tc \<in> set ?tcs. \<not> escapes ?inv
                (case long_term_summary ?st of None \<Rightarrow> [] | Some s \<Rightarrow> s)
                (case retrieved_context ?st of None \<Rightarrow> [] | Some r \<Rightarrow> r) tc"
    by (simp add: escapes_def find_tools)
  have "\<exists>ms log. tool_executor_node ?inv ?st = (Inr ms, log) \<and> length ms = length ?tcs \<and>
          map fst log = filter (\<lambda>n. n \<in> set (map tool_name tools)) (map call_name ?tcs)"
    by (rule tool_executor_node_dispatches_all [OF shape, of ?inv, THEN conjunct1, THEN mp, OF ne])
  then show "\<exists>ms log. tool_executor_node
        (\<lambda>n a. if n = ''calculator'' then Raised ''1 validation error for calculator'' else Returned ''ok'')
        \<lparr>messages = [AIMessage [] [\<lparr>call_name = ''calculator'', call_args = [], call_id = ''a''\<rparr>,
                                    \<lparr>call_name = ''weather'', call_args = [], call_id = ''b''\<rparr>,
                                    \<lparr>call_name = ''get_product_info'',
                                     call_args = [(''query'', JStr ''latte'')], call_id = ''c''\<rparr>]],
         long_term_summary = None, retrieved_context = None, intent = None,
         next_action_type = None, slots = None\<rparr> = (Inr ms, log)
      \<and> length ms = 3 \<and> map fst log = [''calculator'', ''get_product_info'']"
    by (auto simp: tools_def)
next
  let ?pre = "[\<lparr>call_name = ''get_product_info'',
                call_args = [(''query'', JStr ''latte'')], call_id = ''a''\<rparr>]"
  let ?tc = "\<lparr>call_name = ''calculator'',
               call_args = [(''expression'', JStr ''exit()'')], call_id = ''b''\<rparr>"
  let ?post = "[\<lparr>call_name = ''get_outlet_details'',
                 call_args = [(''query'', JStr ''SS 2'')], call_id = ''c''\<rparr>]"
  let ?st = "\<lparr>messages = [AIMessage [] (?pre @ ?tc # ?post)],
         long_term_summary = None, retrieved_context = None, intent = None,
         next_action_type = None, slots = None\<rparr>"
  let ?inv = "\<lambda>(n :: string) (a :: (string \<times> jval) list).
                 if n = ''calculator'' then Escaped ''SystemExit'' else Returned ''ok''"
  have shape: "messages ?st \<noteq> []" "last (messages ?st) = AIMessage [] (?pre @ ?tc # ?post)"
    "?pre @ ?tc # ?post \<noteq> []"
    by simp_all
  have esc: "?pre @ ?tc # ?post = ?pre @ ?tc # ?post \<and>
        (\<forall>x \<in> set ?pre. \<not> escapes ?inv
                (case long_term_summary ?st of None \<Rightarrow> [] | Some s \<Rightarrow> s)
                (case retrieved_context ?st of None \<Rightarrow> [] | Some r \<Rightarrow> r) x) \<and>
        escapes ?inv
                (case long_term_summary ?st of None \<Rightarrow> [] | Some s \<Rightarrow> s)
                (case retrieved_context ?st of None \<Rightarrow> [] | Some r \<Rightarrow> r) ?tc"
    by (simp add: escapes_def find_tools)
  have "\<exists>e log. tool_executor_node ?inv ?st = (Inl (BaseException e), log) \<and>
          map fst log = filter (\<lambda>n. n \<in> set (map tool_name tools)) (map call_name (?pre @ [?tc]))"
    by (rule tool_executor_node_dispatches_all [OF shape, of ?inv, THEN conjunct2,
              THEN spec, THEN spec, THEN spec, THEN mp, OF esc])
  then show "\<exists>e log. tool_executor_node
        (\<lambda>n a. if n = ''calculator'' then Escaped ''SystemExit'' else Returned ''ok'')
        \<lparr>messages = [AIMessage [] [\<lparr>call_name = ''get_product_info'',
                                     call_args = [(''query'', JStr ''latte'')], call_id = ''a''\<rparr>,
                                    \<lparr>call_name = ''calculator'',
                                     call_args = [(''expression'', JStr ''exit()'')], call_id = ''b''\<rparr>,
                                    \<lparr>call_name = ''get_outlet_details'',
                                     call_args = [(''query'', JStr ''SS 2'')], call_id = ''c''\<rparr>]],
         long_term_summary = None, retrieved_context = None, intent = None,
         next_action_type = None, slots = None\<rparr> = (Inl (BaseException e), log)
      \<and> map fst log = [''get_product_info'', ''calculator'']"
    by (simp add: tools_def)
qed

text \<open>
  C4, as the code has it. \<open>except Exception\<close> does not catch \<open>SystemExit\<close>: when the
  calculator is asked for \<open>exit()\<close>, the exception leaves the executor, which returns no
  tool-result message, and the second request is not reached.
\<close>

theorem tool_executor_node_exit_counterexample:
  "tool_executor_node
     (\<lambda>n a. if n = ''calculator'' \<and> a = [(''expression'', JStr ''exit()'')]
             then Escaped ''SystemExit'' else Returned ''ok'')
     \<lparr>messages = [HumanMessage ''compute exit() and find the SS 2 outlet'',
                  AIMessage [] [\<lparr>call_name = ''calculator'',
                                   call_args = [(''expression'', JStr ''exit()'')], call_id = ''call_1''\<rparr>,
                                 \<lparr>call_name = ''get_outlet_details'',
                                   call_args = [(''query'', JStr ''SS 2'')], call_id = ''call_2''\<rparr>]],
      long_term_summary = None, retrieved_context = None, intent = None,
      next_action_type = Some ''tool_call'', slots = None\<rparr>
   = (Inl (BaseException ''SystemExit''), [(''calculator'', [(''expression'', JStr ''exit()'')])])"
  by (simp add: tool_executor_node_def run_tool_call_def actual_tool_args_def tools_def Let_def)

text \<open>
  C4, amended. For a turn whose last message is an assistant message with tool-call
  requests: when no invocation raises an exception that \<open>except Exception\<close> lets
  through, the executor returns exactly one tool-result message per request, the i-th
  tagged with the id of the i-th request; its text is the not-found sentence when the
  name is unregistered, the tool's text when the invocation returns, and the error
  description built from the exception when the invocation raises. When some invocation
  raises an exception that \<open>except Exception\<close> lets through, that exception leaves the
  executor.
\<close>

theorem tool_executor_node_one_result_per_call:
  assumes "messages st \<noteq> []" and "last (messages st) = AIMessage c tcs" and "tcs \<noteq> []"
  shows "((\<forall>tc \<in> set tcs. \<not> escapes invoke
                (case long_term_summary st of None \<Rightarrow> [] | Some s \<Rightarrow> s)
                (case retrieved_context st of None \<Rightarrow> [] | Some r \<Rightarrow> r) tc) \<longrightarrow>
           (\<exists>ms log. tool_executor_node invoke st = (Inr ms, log) \<and> length ms = length tcs \<and>
              (\<forall>i < length tcs. \<exists>txt. ms ! i = ToolMessage txt (call_id (tcs ! i)) \<and>
                 (case find (\<lambda>t. tool_name t = call_name (tcs ! i)) tools of
                    None \<Rightarrow> txt = ''Tool '' @ [sq] @ call_name (tcs ! i) @ [sq]
                                    @ '' was requested but not found or not callable.''
                  | Some t \<Rightarrow>
                      (case invoke (tool_name t)
                              (actual_tool_args t
                                 (case long_term_summary st of None \<Rightarrow> [] | Some s \<Rightarrow> s)
                                 (case retrieved_context st of None \<Rightarrow> [] | Some r \<Rightarrow> r)
                                 (call_args (tcs ! i))) of
                         Returned tool_result \<Rightarrow> txt = tool_result
                       | Raised e \<Rightarrow> txt = ''Error executing tool '' @ [sq] @ call_name (tcs ! i)
                                             @ [sq] @ '': '' @ e
                       | Escaped e \<Rightarrow> False)))))
       \<and> ((\<exists>tc \<in> set tcs. escapes invoke
                (case long_term_summary st of None \<Rightarrow> [] | Some s \<Rightarrow> s)
                (case retrieved_context st of None \<Rightarrow> [] | Some r \<Rightarrow> r) tc) \<longrightarrow>
           (\<exists>e log. tool_executor_node invoke st = (Inl (BaseException e), log)))"
proof -
  let ?lts = "case long_term_summary st of None \<Rightarrow> [] | Some s \<Rightarrow> s"
  let ?rc = "case retrieved_context st of None \<Rightarrow> [] | Some r \<Rightarrow> r"
  let ?m = "\<lambda>tc. projr (fst (run_tool_call invoke ?lts ?rc tc))"
  from assms have node: "tool_executor_node invoke st = run_tool_calls invoke ?lts ?rc tcs"
    by (simp add: tool_executor_node_def Let_def)
  show ?thesis
    unfolding node
  proof (intro conjI impI)
    assume ne: "\<forall>tc \<in> set tcs. \<not> escapes invoke ?lts ?rc tc"
    show "\<exists>ms log. run_tool_calls invoke ?lts ?rc tcs = (Inr ms, log) \<and> length ms = length tcs \<and>
              (\<forall>i < length tcs. \<exists>txt. ms ! i = ToolMessage txt (call_id (tcs ! i)) \<and>
                 (case find (\<lambda>t. tool_name t = call_name (tcs ! i)) tools of
                    None \<Rightarrow> txt = ''Tool '' @ [sq] @ call_name (tcs ! i) @ [sq]
                                    @ '' was requested but not found or not callable.''
                  | Some t \<Rightarrow>
                      (case invoke (tool_name t) (actual_tool_args t ?lts ?rc (call_args (tcs ! i))) of
                         Returned tool_result \<Rightarrow> txt = tool_result
                       | Raised e \<Rightarrow> txt = ''Error executing tool '' @ [sq] @ call_name (tcs ! i)
                                             @ [sq] @ '': '' @ e
                       | Escaped e \<Rightarrow> False)))"
    proof (intro exI conjI)
      show "run_tool_calls invoke ?lts ?rc tcs =
              (Inr (map ?m tcs), concat (map (\<lambda>tc. snd (run_tool_call invoke ?lts ?rc tc)) tcs))"
        by (rule run_tool_calls_no_escape [OF ne])
      show "length (map ?m tcs) = length tcs"
        by (rule length_map)
      show "\<forall>i < length tcs. \<exists>txt. map ?m tcs ! i = ToolMessage txt (call_id (tcs ! i)) \<and>
                 (case find (\<lambda>t. tool_name t = call_name (tcs ! i)) tools of
                    None \<Rightarrow> txt = ''Tool '' @ [sq] @ call_name (tcs ! i) @ [sq]
                                    @ '' was requested but not found or not callable.''
                  | Some t \<Rightarrow>
                      (case invoke (tool_name t) (actual_tool_args t ?lts ?rc (call_args (tcs ! i))) of
                         Returned tool_result \<Rightarrow> txt = tool_result
                       | Raised e \<Rightarrow> txt = ''Error executing tool '' @ [sq] @ call_name (tcs ! i)
                                             @ [sq] @ '': '' @ e
                       | Escaped e \<Rightarrow> False))"
      proof (intro allI impI)
        fix i assume i: "i < length tcs"
        then have "\<not> escapes invoke ?lts ?rc (tcs ! i)"
          using ne by simp
        from run_tool_call_no_escape [OF this] i
        show "\<exists>txt. map ?m tcs ! i = ToolMessage txt (call_id (tcs ! i)) \<and>
                 (case find (\<lambda>t. tool_name t = call_name (tcs ! i)) tools of
                    None \<Rightarrow> txt = ''Tool '' @ [sq] @ call_name (tcs ! i) @ [sq]
                                    @ '' was requested but not found or not callable.''
                  | Some t \<Rightarrow>
                      (case invoke (tool_name t) (actual_tool_args t ?lts ?rc (call_args (tcs ! i))) of
                         Returned tool_result \<Rightarrow> txt = tool_result
                       | Raised e \<Rightarrow> txt = ''Error executing tool '' @ [sq] @ call_name (tcs ! i)
                                             @ [sq] @ '': '' @ e
                       | Escaped e \<Rightarrow> False))"
          by (auto simp only: nth_map sum.sel)
      qed
    qed
  next
    assume "\<exists>tc \<in> set tcs. escapes invoke ?lts ?rc tc"
    then obtain pre tc post where split: "tcs = pre @ tc # post"
      and tc: "escapes invoke ?lts ?rc tc" and pre: "\<forall>x \<in> set pre. \<not> escapes invoke ?lts ?rc x"
      using split_list_first_prop [of tcs "escapes invoke ?lts ?rc"] by blast
    from tc obtain e where e: "fst (run_tool_call invoke ?lts ?rc tc) = Inl (BaseException e)"
      using run_tool_call_escapes by blast
    show "\<exists>e log. run_tool_calls invoke ?lts ?rc tcs = (Inl (BaseException e), log)"
      unfolding split by (intro exI) (rule run_tool_calls_escape [OF pre e])
  qed
qed

text \<open>
  Two instances. In the first the calculator, called without its argument, raises a
  validation error, the second request names an unregistered tool and the third
  returns. In the second the evaluation of \<open>exit()\<close> raises \<open>SystemExit\<close>.
\<close>

theorem tool_executor_node_one_result_per_call_witness:
  "(\<exists>log. tool_executor_node
        (\<lambda>n a. if n = ''calculator'' then Raised ''1 validation error for calculator''
                else Returned ''ok'')
        \<lparr>messages = [AIMessage [] [\<lparr>call_name = ''calculator'', call_args = [], call_id = ''a''\<rparr>,
                                    \<lparr>call_name = ''weather'', call_args = [], call_id = ''b''\<rparr>,
                                    \<lparr>call_name = ''get_outlet_details'',
                                     call_args = [(''query'', JStr ''SS 2'')], call_id = ''c''\<rparr>]],
         long_term_summary = None, retrieved_context = None, intent = None,
         next_action_type = None, slots = None\<rparr>
      = (Inr [ToolMessage (''Error executing tool '' @ [sq] @ ''calculator'' @ [sq]
                             @ '': 1 validation error for calculator'') ''a'',
              ToolMessage (''Tool '' @ [sq] @ ''weather'' @ [sq]
                             @ '' was requested but not found or not callable.'') ''b'',
              ToolMessage ''ok'' ''c''], log))
   \<and> (\<exists>e log. tool_executor_node
        (\<lambda>n a. if n = ''calculator'' then Escaped ''SystemExit'' else Returned ''ok'')
        \<lparr>messages = [AIMessage [] [\<lparr>call_name = ''get_outlet_details'',
                                     call_args = [(''query'', JStr ''SS 2'')], call_id = ''a''\<rparr>,
                                    \<lparr>call_name = ''calculator'',
                                     call_args = [(''expression'', JStr ''exit()'')], call_id = ''b''\<rparr>]],
         long_term_summary = None, retrieved_context = None, intent = None,
         next_action_type = None, slots = None\<rparr> = (Inl (BaseException e), log))"
proof (rule conjI)
  let ?tcs = "[\<lparr>call_name = ''calculator'', call_args = [], call_id = ''a''\<rparr>,
               \<lparr>call_name = ''weather'', call_args = [], call_id = ''b''\<rparr>,
               \<lparr>call_name = ''get_outlet_details'',
                call_args = [(''query'', JStr ''SS 2'')], call_id = ''c''\<rparr>]"
  let ?st = "\<lparr>messages = [AIMessage [] ?tcs],
         long_term_summary = None, retrieved_context = None, intent = None,
         next_action_type = None, slots = None\<rparr>"
  let ?inv = "\<lambda>(n :: string) (a :: (string \<times> jval) list).
                 if n = ''calculator'' then Raised ''1 validation error for calculator''
                 else Returned ''ok''"
  have shape: "messages ?st \<noteq> []" "last (messages ?st) = AIMessage [] ?tcs" "?tcs \<noteq> []"
    by simp_all
  have ne: "\<forall>tc \<in> set ?tcs. \<not> escapes ?inv
                (case long_term_summary ?st of None \<Rightarrow> [] | Some s \<Rightarrow> s)
                (case retrieved_context ?st of None \<Rightarrow> [] | Some r \<Rightarrow> r) tc"
    by (simp add: escapes_def find_tools)
  from tool_executor_node_one_result_per_call [OF shape, of ?inv, THEN conjunct1, THEN mp, OF ne]
  obtain ms log where r: "tool_executor_node ?inv ?st = (Inr ms, log)"
    and l: "length ms = length ?tcs"
    and a: "\<forall>i < length ?tcs. \<exists>txt. ms ! i = ToolMessage txt (call_id (?tcs ! i)) \<and>
                 (case find (\<lambda>t. tool_name t = call_name (?tcs ! i)) tools of
                    None \<Rightarrow> txt = ''Tool '' @ [sq] @ call_name (?tcs ! i) @ [sq]
                                    @ '' was requested but not found or not callable.''
                  | Some t \<Rightarrow>
                      (case ?inv (tool_name t)
                              (actual_tool_args t
                                 (case long_term_summary ?st of None \<Rightarrow> [] | Some s \<Rightarrow> s)
                                 (case retrieved_context ?st of None \<Rightarrow> [] | Some r \<Rightarrow> r)
                                 (call_args (?tcs ! i))) of
                         Returned tool_result \<Rightarrow> txt = tool_result
                       | Raised e \<Rightarrow> txt = ''Error executing tool '' @ [sq] @ call_name (?tcs ! i)
                                             @ [sq] @ '': '' @ e
                       | Escaped e \<Rightarrow> False))"
    by (elim exE conjE)
  from a [THEN spec, of 0]
  have m0: "ms ! 0 = ToolMessage (''Error executing tool '' @ [sq] @ ''calculator'' @ [sq]
                             @ '': 1 validation error for calculator'') ''a''"
    by (auto simp: find_tools)
  from a [THEN spec, of 1]
  have m1: "ms ! 1 = ToolMessage (''Tool '' @ [sq] @ ''weather'' @ [sq]
                             @ '' was requested but not found or not callable.'') ''b''"
    by (auto simp: find_tools)
  from a [THEN spec, of 2]
  have m2: "ms ! 2 = ToolMessage ''ok'' ''c''"
    by (auto simp: find_tools)
  from l have "ms = [ms ! 0, ms ! 1, ms ! 2]"
    by (cases ms; cases "tl ms"; cases "tl (tl ms)") auto
  with m0 m1 m2 have "ms = [ToolMessage (''Error executing tool '' @ [sq] @ ''calculator'' @ [sq]
                             @ '': 1 validation error for calculator'') ''a'',
              ToolMessage (''Tool '' @ [sq] @ ''weather'' @ [sq]
                             @ '' was requested but not found or not callable.'') ''b'',
              ToolMessage ''ok'' ''c'']"
    by (simp only:)
  with r show "\<exists>log. tool_executor_node
        (\<lambda>n a. if n = ''calculator'' then Raised ''1 validation error for calculator''
                else Returned ''ok'')
        \<lparr>messages = [AIMessage [] [\<lparr>call_name = ''calculator'', call_args = [], call_id = ''a''\<rparr>,
                                    \<lparr>call_name = ''weather'', call_args = [], call_id = ''b''\<rparr>,
                                    \<lparr>call_name = ''get_outlet_details'',
                                     call_args = [(''query'', JStr ''SS 2'')], call_id = ''c''\<rparr>]],
         long_term_summary = None, retrieved_context = None, intent = None,
         next_action_type = None, slots = None\<rparr>
      = (Inr [ToolMessage (''Error executing tool '' @ [sq] @ ''calculator'' @ [sq]
                             @ '': 1 validation error for calculator'') ''a'',
              ToolMessage (''Tool '' @ [sq] @ ''weather'' @ [sq]
                             @ '' was requested but not found or not callable.'') ''b'',
              ToolMessage ''ok'' ''c''], log)"
    by (intro exI [of _ log]) (simp only:)
next
  let ?tcs = "[\<lparr>call_name = ''get_outlet_details'',
                call_args = [(''query'', JStr ''SS 2'')], call_id = ''a''\<rparr>,
               \<lparr>call_name = ''calculator'',
                call_args = [(''expression'', JStr ''exit()'')], call_id = ''b''\<rparr>]"
  let ?st = "\<lparr>messages = [AIMessage [] ?tcs],
         long_term_summary = None, retrieved_context = None, intent = None,
         next_action_type = None, slots = None\<rparr>"
  let ?inv = "\<lambda>(n :: string) (a :: (string \<times> jval) list).
                 if n = ''calculator'' then Escaped ''SystemExit'' else Returned ''ok''"
  have shape: "messages ?st \<noteq> []" "last (messages ?st) = AIMessage [] ?tcs" "?tcs \<noteq> []"
    by simp_all
  have esc: "\<exists>tc \<in> set ?tcs. escapes ?inv
                (case long_term_summary ?st of None \<Rightarrow> [] | Some s \<Rightarrow> s)
                (case retrieved_context ?st of None \<Rightarrow> [] | Some r \<Rightarrow> r) tc"
    by (simp add: escapes_def find_tools)
  show "\<exists>e log. tool_executor_node
        (\<lambda>n a. if n = ''calculator'' then Escaped ''SystemExit'' else Returned ''ok'')
        \<lparr>messages = [AIMessage [] [\<lparr>call_name = ''get_outlet_details'',
                                     call_args = [(''query'', JStr ''SS 2'')], call_id = ''a''\<rparr>,
                                    \<lparr>call_name = ''calculator'',
                                     call_args = [(''expression'', JStr ''exit()'')], call_id = ''b''\<rparr>]],
         long_term_summary = None, retrieved_context = None, intent = None,
         next_action_type = None, slots = None\<rparr> = (Inl (BaseException e), log)"
    by (rule tool_executor_node_one_result_per_call [OF shape, of ?inv, THEN conjunct2, THEN mp, OF esc])
qed

section \<open>Retrieval\<close>

text \<open>
  C8, as the code has it. The guard \<open>if last_input and ...\<close> also skips the search when
  the most recent user turn has empty text: a user turn exists and the index holds more
  than its placeholder, the search for the empty query would find an entry, and the
  snippet list returned is empty.
\<close>

theorem retrieve_empty_user_turn_counterexample:
  "retrieve_long_term_memory_node (\<lambda>vs q k. Inr (take k (tl vs))) [[], ''User is called Ali'']
     \<lparr>messages = [HumanMessage ''hello'', AIMessage ''hi'' [], HumanMessage []],
      long_term_summary = None, retrieved_context = None, intent = None,
      next_action_type = None, slots = None\<rparr>
   = Inr \<lparr>messages = [HumanMessage ''hello'', AIMessage ''hi'' [], HumanMessage []],
      long_term_summary = None, retrieved_context = Some [], intent = None,
      next_action_type = None, slots = None\<rparr>
   \<and> (\<lambda>vs q k. Inr (take k (tl vs))) [[], ''User is called Ali''] [] 3
       = (Inr [''User is called Ali''] :: error + string list)"
  by (simp add: retrieve_long_term_memory_node_def)

text \<open>
  C8, amended. The snippet list is empty when there is no user turn, when the text of
  the most recent user turn is empty, or when the index holds at most its placeholder;
  otherwise the node searches the index with k = 3 for the text of the most recent user
  turn and returns what is found (or the failure of the search). Only the field
  \<open>retrieved_context\<close> of the state changes, and the index is only read.
\<close>

theorem retrieve_long_term_memory_node_result:
  "((filter is_human (messages st) = [] \<or> content (last (filter is_human (messages st))) = []
       \<or> length vs \<le> 1)
      \<longrightarrow> retrieve_long_term_memory_node similarity_search vs st
            = Inr (st\<lparr>retrieved_context := Some []\<rparr>))
   \<and> (filter is_human (messages st) \<noteq> [] \<and> content (last (filter is_human (messages st))) \<noteq> []
       \<and> length vs > 1
      \<longrightarrow> retrieve_long_term_memory_node similarity_search vs st
            = (case similarity_search vs (content (last (filter is_human (messages st)))) 3 of
                 Inl e \<Rightarrow> Inl e
               | Inr docs \<Rightarrow> Inr (st\<lparr>retrieved_context := Some docs\<rparr>)))"
proof -
  have "(case filter is_human (rev xs) of [] \<Rightarrow> [] | m # _ \<Rightarrow> content m)
          = (if filter is_human xs = [] then [] else content (last (filter is_human xs)))" for xs
    by (simp add: rev_filter [symmetric] last_rev hd_rev split: list.splits)
  then show ?thesis
    by (auto simp: retrieve_long_term_memory_node_def Let_def)
qed

text \<open>
  Instances: a query against the placeholder-only index, and a search that finds three
  of four stored summaries for the most recent user turn.
\<close>

theorem retrieve_long_term_memory_node_result_witness:
  "retrieve_long_term_memory_node (\<lambda>vs q k. Inr (take k (tl vs))) [[]]
     \<lparr>messages = [HumanMessage ''where is the SS 2 outlet''],
      long_term_summary = None, retrieved_context = Some [''old''], intent = None,
      next_action_type = None, slots = None\<rparr>
   = Inr \<lparr>messages = [HumanMessage ''where is the SS 2 outlet''],
      long_term_summary = None, retrieved_context = Some [], intent = None,
      next_action_type = None, slots = None\<rparr>
   \<and> retrieve_long_term_memory_node (\<lambda>vs q k. Inr (take k (tl vs))) [[], ''a'', ''b'', ''c'', ''d'']
     \<lparr>messages = [HumanMessage ''first'', AIMessage ''reply'' [], HumanMessage ''second'',
                  AIMessage ''again'' []],
      long_term_summary = None, retrieved_context = None, intent = None,
      next_action_type = None, slots = None\<rparr>
   = Inr \<lparr>messages = [HumanMessage ''first'', AIMessage ''reply'' [], HumanMessage ''second'',
                  AIMessage ''again'' []],
      long_term_summary = None, retrieved_context = Some [''a'', ''b'', ''c''], intent = None,
      next_action_type = None, slots = None\<rparr>"
  using retrieve_long_term_memory_node_result [of
     "\<lparr>messages = [HumanMessage ''where is the SS 2 outlet''],
      long_term_summary = None, retrieved_context = Some [''old''], intent = None,
      next_action_type = None, slots = None\<rparr>" "[[]]" "\<lambda>vs q k. Inr (take k (tl vs))"]
    retrieve_long_term_memory_node_result [of
     "\<lparr>messages = [HumanMessage ''first'', AIMessage ''reply'' [], HumanMessage ''second'',
                  AIMessage ''again'' []],
      long_term_summary = None, retrieved_context = None, intent = None,
      next_action_type = None, slots = None\<rparr>" "[[], ''a'', ''b'', ''c'', ''d'']"
      "\<lambda>vs q k. Inr (take k (tl vs))"]
  by (simp add: numeral_3_eq_3)

section \<open>Calculator\<close>

text \<open>
  C2. The registered tool \<open>calculator\<close> hands its argument to \<open>eval\<close> unchecked and
  with the caller's names: where \<open>eval\<close> computes \<open>abs(-3)\<close>, the tool returns 3. The
  node \<open>calculator_tool_node\<close> rejects the same text by its character class.
\<close>

theorem calculator_evaluates_unchecked:
  "calculator (\<lambda>env e. if env = CallerGlobals \<and> e = ''abs(-3)'' then Returned ''3''
                         else Raised ''name is not defined'') ''abs(-3)'' = Inr ''3''
   \<and> calculator_tool_node (\<lambda>env e. if env = CallerGlobals \<and> e = ''abs(-3)'' then Returned ''3''
                                       else Raised ''name is not defined'') ''abs(-3)''
       = Inr (CalculatorError ''Could not extract valid expression.'')"
  by (simp add: calculator_def calculator_tool_node_def strip_def strip_char_def is_space_def
                valid_pattern_def calc_char_def upper_def)

section \<open>Empty results of the endpoint /outlets\<close>

lemma contains_iff: "contains sub s \<longleftrightarrow> (\<exists>pre post. s = pre @ sub @ post)"
proof (induction s)
  case Nil
  then show ?case by auto
next
  case (Cons c cs)
  show ?case
  proof
    assume "contains sub (c # cs)"
    then consider "prefix sub (c # cs)" | "contains sub cs" by auto
    then show "\<exists>pre post. c # cs = pre @ sub @ post"
    proof cases
      case 1
      then obtain post where "c # cs = sub @ post" by (auto simp: prefix_def)
      then have "c # cs = [] @ sub @ post" by simp
      then show ?thesis by blast
    next
      case 2
      with Cons.IH obtain pre post where "cs = pre @ sub @ post" by blast
      then have "c # cs = (c # pre) @ sub @ post" by simp
      then show ?thesis by blast
    qed
  next
    assume "\<exists>pre post. c # cs = pre @ sub @ post"
    then obtain pre post where eq: "c # cs = pre @ sub @ post" by blast
    show "contains sub (c # cs)"
    proof (cases pre)
      case Nil
      with eq have "prefix sub (c # cs)" by (simp add: prefix_def)
      then show ?thesis by simp
    next
      case (Cons p ps)
      with eq have "cs = ps @ sub @ post" by simp
      with Cons.IH have "contains sub cs" by blast
      then show ?thesis by simp
    qed
  qed
qed

text \<open>
  C9. When the query is generated and executed, the endpoint answers with the fixed
  sentence if the result text is empty or has \<open>[]\<close> anywhere in it, and with the result
  text itself otherwise.
\<close>

theorem get_outlet_info_empty_result:
  assumes "generate query = Inr raw"
    and "execute (expand_fuzzy_sql (clean_sql_query raw)) = Inr result"
  shows "get_outlet_info (Some generate) (Some execute) query (Some lts) (Some rc)
           = Inr (if result = [] \<or> (\<exists>pre post. result = pre @ ''[]'' @ post)
                  then no_information else result)"
  using assms by (simp add: get_outlet_info_def Let_def contains_iff)

text \<open>
  Instances: a result that is not empty but holds \<open>[]\<close>, a result without it, and the
  empty result.
\<close>

theorem get_outlet_info_empty_result_witness:
  "get_outlet_info (Some (\<lambda>q. Inr ''SELECT 1;'')) (Some (\<lambda>s. Inr ''[(1,)] and []''))
      ''any outlet'' (Some []) (Some ''[]'') = Inr no_information
   \<and> get_outlet_info (Some (\<lambda>q. Inr ''SELECT 1;'')) (Some (\<lambda>s. Inr ''[(1,)]''))
      ''any outlet'' (Some []) (Some ''[]'') = Inr ''[(1,)]''
   \<and> get_outlet_info (Some (\<lambda>q. Inr ''SELECT 1;'')) (Some (\<lambda>s. Inr []))
      ''any outlet'' (Some []) (Some ''[]'') = Inr no_information"
proof -
  have a: "\<exists>pre post. ''[(1,)] and []'' = pre @ ''[]'' @ post"
    by (rule exI [of _ "''[(1,)] and ''"], rule exI [of _ "[]"]) simp
  have b: "\<not> (\<exists>pre post. ''[(1,)]'' = pre @ ''[]'' @ post)"
    using contains_iff [of "''[]''" "''[(1,)]''"] by simp
  show ?thesis
    using a b
      get_outlet_info_empty_result [of "\<lambda>q. Inr ''SELECT 1;''" "''any outlet''" "''SELECT 1;''"
        "\<lambda>s. Inr ''[(1,)] and []''" "''[(1,)] and []''" "[]" "''[]''"]
      get_outlet_info_empty_result [of "\<lambda>q. Inr ''SELECT 1;''" "''any outlet''" "''SELECT 1;''"
        "\<lambda>s. Inr ''[(1,)]''" "''[(1,)]''" "[]" "''[]''"]
      get_outlet_info_empty_result [of "\<lambda>q. Inr ''SELECT 1;''" "''any outlet''" "''SELECT 1;''"
        "\<lambda>s. Inr []" "[]" "[]" "''[]''"]
    by simp
qed

section \<open>The fenced statement of the specification\<close>

text \<open>
  The sanitiser and the expansion at the two texts used below: the fenced statement
  with the column \<open>address\<close> bare, and with the column in double quotes.
\<close>

lemma clean_fenced_unquoted:
  "clean_sql_query ([bt, bt, bt] @ ''sql'' @ [nl] @ ''SELECT * FROM outlets WHERE address LIKE ''
                      @ [sq] @ ''%SS 2%'' @ [sq] @ '';'' @ [nl] @ [bt, bt, bt])
     = ''SELECT * '' @ [nl] @ ''FROM outlets '' @ [nl] @ ''WHERE address LIKE '' @ [sq] @ ''%SS 2%'' @ [sq] @ '';''"
  by code_simp

lemma expand_unquoted:
  "expand_fuzzy_sql (''SELECT * '' @ [nl] @ ''FROM outlets '' @ [nl] @ ''WHERE address LIKE ''
                         @ [sq] @ ''%SS 2%'' @ [sq] @ '';'')
     = ''SELECT * '' @ [nl] @ ''FROM outlets '' @ [nl] @ ''WHERE address LIKE '' @ [sq] @ ''%SS 2%'' @ [sq] @ '';''"
  by code_simp

lemma clean_fenced_quoted:
  "clean_sql_query ([bt, bt, bt] @ ''sql'' @ [nl]
                  @ ''SELECT * FROM outlets WHERE '' @ [dq] @ ''address'' @ [dq] @ '' LIKE ''
                  @ [sq] @ ''%SS 2%'' @ [sq] @ '';'' @ [nl] @ [bt, bt, bt])
   = ''SELECT * '' @ [nl] @ ''FROM outlets '' @ [nl] @ ''WHERE '' @ [dq] @ ''address'' @ [dq]
         @ '' LIKE '' @ [sq] @ ''%SS 2%'' @ [sq] @ '';''"
  by code_simp

lemma expand_quoted:
  "expand_fuzzy_sql (''SELECT * '' @ [nl] @ ''FROM outlets '' @ [nl] @ ''WHERE '' @ [dq] @ ''address'' @ [dq]
         @ '' LIKE '' @ [sq] @ ''%SS 2%'' @ [sq] @ '';'')
     = ''SELECT * '' @ [nl] @ ''FROM outlets '' @ [nl] @ ''WHERE ('' @ [dq] @ ''address'' @ [dq]
         @ '' LIKE '' @ [sq] @ ''%SS 2%'' @ [sq] @ '' OR REPLACE('' @ [dq] @ ''address'' @ [dq]
         @ '', '' @ [sq] @ '' '' @ [sq] @ '', '' @ [sq, sq] @ '') LIKE '' @ [sq] @ ''%SS2%'' @ [sq] @ '');''"
  by code_simp

text \<open>
  C6, as the code has it. The pattern of the expansion asks for the column in double
  quotes, so the sanitised statement with the bare column \<open>address\<close> comes back without a
  disjunction.
\<close>

theorem expand_unquoted_address_counterexample:
  "expand_fuzzy_sql (clean_sql_query ([bt, bt, bt] @ ''sql'' @ [nl]
        @ ''SELECT * FROM outlets WHERE address LIKE '' @ [sq] @ ''%SS 2%'' @ [sq] @ '';''
        @ [nl] @ [bt, bt, bt]))
     = ''SELECT * '' @ [nl] @ ''FROM outlets '' @ [nl] @ ''WHERE address LIKE '' @ [sq] @ ''%SS 2%'' @ [sq] @ '';''"
  by (simp only: clean_fenced_unquoted expand_unquoted)

text \<open>
  C6, amended. The sanitised statement has no backtick (and so no fence); the expansion
  returns it unchanged; for the same fenced statement with the column written
  \<open>"address"\<close>, the clause becomes the disjunction of the pattern \<open>'%SS 2%'\<close> on the column
  and the pattern \<open>'%SS2%'\<close> on the column without spaces.
\<close>

theorem sanitize_fenced_then_expand:
  "bt \<notin> set (clean_sql_query ([bt, bt, bt] @ ''sql'' @ [nl]
                  @ ''SELECT * FROM outlets WHERE address LIKE '' @ [sq] @ ''%SS 2%'' @ [sq] @ '';''
                  @ [nl] @ [bt, bt, bt]))
   \<and> expand_fuzzy_sql (clean_sql_query ([bt, bt, bt] @ ''sql'' @ [nl]
                  @ ''SELECT * FROM outlets WHERE address LIKE '' @ [sq] @ ''%SS 2%'' @ [sq] @ '';''
                  @ [nl] @ [bt, bt, bt]))
     = clean_sql_query ([bt, bt, bt] @ ''sql'' @ [nl]
                  @ ''SELECT * FROM outlets WHERE address LIKE '' @ [sq] @ ''%SS 2%'' @ [sq] @ '';''
                  @ [nl] @ [bt, bt, bt])
   \<and> expand_fuzzy_sql (clean_sql_query ([bt, bt, bt] @ ''sql'' @ [nl]
                  @ ''SELECT * FROM outlets WHERE '' @ [dq] @ ''address'' @ [dq] @ '' LIKE ''
                  @ [sq] @ ''%SS 2%'' @ [sq] @ '';'' @ [nl] @ [bt, bt, bt]))
     = ''SELECT * '' @ [nl] @ ''FROM outlets '' @ [nl] @ ''WHERE ('' @ [dq] @ ''address'' @ [dq]
         @ '' LIKE '' @ [sq] @ ''%SS 2%'' @ [sq] @ '' OR REPLACE('' @ [dq] @ ''address'' @ [dq]
         @ '', '' @ [sq] @ '' '' @ [sq] @ '', '' @ [sq, sq] @ '') LIKE '' @ [sq] @ ''%SS2%'' @ [sq] @ '');''"
proof (intro conjI)
  show "bt \<notin> set (clean_sql_query ([bt, bt, bt] @ ''sql'' @ [nl]
                  @ ''SELECT * FROM outlets WHERE address LIKE '' @ [sq] @ ''%SS 2%'' @ [sq] @ '';''
                  @ [nl] @ [bt, bt, bt]))"
    unfolding clean_fenced_unquoted by simp
qed (simp_all only: clean_fenced_unquoted expand_unquoted clean_fenced_quoted expand_quoted)

section \<open>The expansion and a clause on another column\<close>

text \<open>
  The expansion and the sanitiser at a statement with two clauses: one on the column
  \<open>"address"\<close> with the pattern \<open>'%KL'\<close>, which has no closing \<open>%\<close>, and one on the column
  \<open>"name"\<close> with the pattern \<open>'%SS 2%'\<close>.
\<close>

lemma expand_mixed:
  "expand_fuzzy_sql (''SELECT * FROM outlets WHERE '' @ [dq] @ ''address'' @ [dq] @ '' LIKE ''
        @ [sq] @ ''%KL'' @ [sq] @ '' AND '' @ [dq] @ ''name'' @ [dq] @ '' LIKE ''
        @ [sq] @ ''%SS 2%'' @ [sq] @ '';'')
   = ''SELECT * FROM outlets WHERE ('' @ [dq] @ ''address'' @ [dq] @ '' LIKE ''
        @ [sq] @ ''%KL'' @ [sq] @ '' AND '' @ [dq] @ ''name'' @ [dq] @ '' LIKE ''
        @ [sq] @ ''%SS 2%'' @ [sq]
        @ '' OR REPLACE('' @ [dq] @ ''address'' @ [dq] @ '', '' @ [sq] @ '' '' @ [sq] @ '', ''
        @ [sq, sq] @ '') LIKE '' @ [sq] @ ''%KL'' @ [sq] @ ''AND'' @ [dq] @ ''name'' @ [dq]
        @ ''LIKE'' @ [sq] @ ''%SS2%'' @ [sq] @ '');''"
  by code_simp

lemma clean_mixed:
  "clean_sql_query (''SELECT * FROM outlets WHERE '' @ [dq] @ ''address'' @ [dq] @ '' LIKE ''
        @ [sq] @ ''%KL'' @ [sq] @ '' AND '' @ [dq] @ ''name'' @ [dq] @ '' LIKE ''
        @ [sq] @ ''%SS 2%'' @ [sq] @ '';'')
   = ''SELECT * '' @ [nl] @ ''FROM outlets '' @ [nl] @ ''WHERE '' @ [dq] @ ''address'' @ [dq] @ '' LIKE ''
        @ [sq] @ ''%KL'' @ [sq] @ '' AND '' @ [dq] @ ''name'' @ [dq] @ '' LIKE ''
        @ [sq] @ ''%SS 2%'' @ [sq] @ '';''"
  by code_simp

lemma expand_clean_mixed:
  "expand_fuzzy_sql (''SELECT * '' @ [nl] @ ''FROM outlets '' @ [nl] @ ''WHERE '' @ [dq] @ ''address'' @ [dq] @ '' LIKE ''
        @ [sq] @ ''%KL'' @ [sq] @ '' AND '' @ [dq] @ ''name'' @ [dq] @ '' LIKE ''
        @ [sq] @ ''%SS 2%'' @ [sq] @ '';'')
   = ''SELECT * '' @ [nl] @ ''FROM outlets '' @ [nl] @ ''WHERE ('' @ [dq] @ ''address'' @ [dq] @ '' LIKE ''
        @ [sq] @ ''%KL'' @ [sq] @ '' AND '' @ [dq] @ ''name'' @ [dq] @ '' LIKE ''
        @ [sq] @ ''%SS 2%'' @ [sq]
        @ '' OR REPLACE('' @ [dq] @ ''address'' @ [dq] @ '', '' @ [sq] @ '' '' @ [sq] @ '', ''
        @ [sq, sq] @ '') LIKE '' @ [sq] @ ''%KL'' @ [sq] @ ''AND'' @ [dq] @ ''name'' @ [dq]
        @ ''LIKE'' @ [sq] @ ''%SS2%'' @ [sq] @ '');''"
  by code_simp

text \<open>
  C7, at that statement. The keyword group \<open>(.*?)\<close> of the pattern is not held inside
  the string literal: after \<open>"address" LIKE '%\<close> it runs over \<open>KL' AND "name" LIKE '%SS 2\<close>
  to the first \<open>%'\<close>. The text replaced therefore contains the clause on \<open>"name"\<close>, a
  column outside the allow-list: the result has both clauses inside a parenthesis and,
  as the second operand of \<open>OR\<close>, a copy without spaces in which \<open>"name"\<close> is compared with
  \<open>'%SS2%'\<close>. The statement that the sanitiser makes of it is altered in the same way.
\<close>

theorem expand_fuzzy_sql_alters_other_column:
  "expand_fuzzy_sql (''SELECT * FROM outlets WHERE '' @ [dq] @ ''address'' @ [dq] @ '' LIKE ''
        @ [sq] @ ''%KL'' @ [sq] @ '' AND '' @ [dq] @ ''name'' @ [dq] @ '' LIKE ''
        @ [sq] @ ''%SS 2%'' @ [sq] @ '';'')
   = ''SELECT * FROM outlets WHERE ('' @ [dq] @ ''address'' @ [dq] @ '' LIKE ''
        @ [sq] @ ''%KL'' @ [sq] @ '' AND '' @ [dq] @ ''name'' @ [dq] @ '' LIKE ''
        @ [sq] @ ''%SS 2%'' @ [sq]
        @ '' OR REPLACE('' @ [dq] @ ''address'' @ [dq] @ '', '' @ [sq] @ '' '' @ [sq] @ '', ''
        @ [sq, sq] @ '') LIKE '' @ [sq] @ ''%KL'' @ [sq] @ ''AND'' @ [dq] @ ''name'' @ [dq]
        @ ''LIKE'' @ [sq] @ ''%SS2%'' @ [sq] @ '');''
   \<and> expand_fuzzy_sql (clean_sql_query
       (''SELECT * FROM outlets WHERE '' @ [dq] @ ''address'' @ [dq] @ '' LIKE ''
        @ [sq] @ ''%KL'' @ [sq] @ '' AND '' @ [dq] @ ''name'' @ [dq] @ '' LIKE ''
        @ [sq] @ ''%SS 2%'' @ [sq] @ '';''))
   = ''SELECT * '' @ [nl] @ ''FROM outlets '' @ [nl] @ ''WHERE ('' @ [dq] @ ''address'' @ [dq] @ '' LIKE ''
        @ [sq] @ ''%KL'' @ [sq] @ '' AND '' @ [dq] @ ''name'' @ [dq] @ '' LIKE ''
        @ [sq] @ ''%SS 2%'' @ [sq]
        @ '' OR REPLACE('' @ [dq] @ ''address'' @ [dq] @ '', '' @ [sq] @ '' '' @ [sq] @ '', ''
        @ [sq, sq] @ '') LIKE '' @ [sq] @ ''%KL'' @ [sq] @ ''AND'' @ [dq] @ ''name'' @ [dq]
        @ ''LIKE'' @ [sq] @ ''%SS2%'' @ [sq] @ '');''"
  by (intro conjI) (simp_all only: expand_mixed clean_mixed expand_clean_mixed)

section \<open>Sanitising twice\<close>

subsection \<open>Letters\<close>

lemma lowercase_letters: "\<forall>c \<in> set ''abcdefghijklmnopqrstuvwxyz''. is_letter c"
  by (simp add: is_letter_def)

lemma uppercase_letters: "\<forall>c \<in> set ''ABCDEFGHIJKLMNOPQRSTUVWXYZ''. is_letter c"
  by (simp add: is_letter_def)

lemma lower_letter:
  assumes "lower c \<in> set ''abcdefghijklmnopqrstuvwxyz''"
  shows "is_letter c"
proof (cases "map_of (zip ''ABCDEFGHIJKLMNOPQRSTUVWXYZ'' ''abcdefghijklmnopqrstuvwxyz'') c")
  case None
  then have "lower c = c" by (simp add: lower_def)
  with assms have "c \<in> set ''abcdefghijklmnopqrstuvwxyz''" by (simp only:)
  with lowercase_letters show ?thesis by blast
next
  case (Some l)
  then have "(c, l) \<in> set (zip ''ABCDEFGHIJKLMNOPQRSTUVWXYZ'' ''abcdefghijklmnopqrstuvwxyz'')"
    by (rule map_of_SomeD)
  then have "c \<in> set ''ABCDEFGHIJKLMNOPQRSTUVWXYZ''"
    by (rule set_zip_leftD)
  with uppercase_letters show ?thesis by blast
qed

lemma letter_props:
  assumes "is_letter c"
  shows "is_word c" and "\<not> is_space c" and "c \<noteq> bt" and "c \<noteq> CHR '';''" and "c \<noteq> nl"
  using assms by (auto simp: is_letter_def is_word_def is_space_def Let_def)

text \<open>A text that starts with a keyword, in any letter case, starts with as many letters.\<close>

lemma ci_prefix_letters:
  "ci_prefix k r \<Longrightarrow> set (map lower k) \<subseteq> set ''abcdefghijklmnopqrstuvwxyz''
     \<Longrightarrow> \<forall>c \<in> set (take (length k) r). is_letter c"
proof (induction k r rule: ci_prefix.induct)
  case (3 k ks c cs)
  then have "lower c \<in> set ''abcdefghijklmnopqrstuvwxyz''" by simp
  then have "is_letter c" by (rule lower_letter)
  moreover from 3 have "\<forall>c \<in> set (take (length ks) cs). is_letter c" by simp
  ultimately show ?case by simp
qed simp_all

lemma ci_prefix_length: "ci_prefix k r \<Longrightarrow> length k \<le> length r"
  by (induction k r rule: ci_prefix.induct) auto

lemma ci_prefix_append: "ci_prefix k r \<Longrightarrow> ci_prefix k (take (length k) r @ y)"
  by (induction k r rule: ci_prefix.induct) auto

lemma select_lower: "set (map lower ''SELECT'') \<subseteq> set ''abcdefghijklmnopqrstuvwxyz''"
  by (simp add: lower_def)

subsection \<open>The statement found by step 3\<close>

lemma length_select: "length ''SELECT'' = 6"
  by simp

lemma statement_head:
  assumes "ci_prefix ''SELECT'' t"
  shows "\<forall>c \<in> set (take 6 t). is_letter c" and "length (take 6 t) = 6"
  using ci_prefix_letters [OF assms select_lower] ci_prefix_length [OF assms]
  unfolding length_select by simp_all

lemma ci_prefix_select_append: "ci_prefix ''SELECT'' r \<Longrightarrow> ci_prefix ''SELECT'' (take 6 r @ y)"
  using ci_prefix_append [of "''SELECT''" r y] unfolding length_select .

lemma search_select_statement: "search_select x = Some t \<Longrightarrow> statement t"
proof (induction x)
  case Nil
  then show ?case by simp
next
  case (Cons c cs)
  show ?case
  proof (cases "ci_prefix ''SELECT'' (c # cs) \<and> CHR '';'' \<in> set (drop 6 (c # cs))")
    case False
    with Cons show ?thesis by (auto simp: upto_semicolon_def split: if_splits)
  next
    case True
    define a where "a = take 6 (c # cs)"
    define b where "b = takeWhile (\<lambda>c. c \<noteq> CHR '';'') (drop 6 (c # cs))"
    from True Cons.prems have t: "t = a @ b @ '';''"
      by (simp add: upto_semicolon_def a_def b_def)
    from True have "\<forall>c \<in> set a. is_letter c"
      unfolding a_def by (intro statement_head) simp
    then have a: "filter (\<lambda>c. c = CHR '';'') a = []"
      by (auto simp: filter_empty_conv dest: letter_props(4))
    have b: "filter (\<lambda>c. c = CHR '';'') b = []"
      unfolding b_def by (auto simp: filter_empty_conv dest: set_takeWhileD)
    from True have "ci_prefix ''SELECT'' (take 6 (c # cs) @ b @ '';'')"
      by (intro ci_prefix_select_append) simp
    then have "ci_prefix ''SELECT'' t" by (simp only: t a_def)
    with a b t show ?thesis by (simp add: statement_def)
  qed
qed

lemma statement_split:
  assumes "statement t"
  obtains a y where "t = a @ y" and "length a = 6" and "\<forall>c \<in> set a. is_letter c"
    and "y \<noteq> []" and "last y = CHR '';''" and "filter (\<lambda>c. c = CHR '';'') y = '';''"
proof -
  from assms have ci: "ci_prefix ''SELECT'' t" and ne: "t \<noteq> []" and l: "last t = CHR '';''"
    and f: "filter (\<lambda>c. c = CHR '';'') t = '';''"
    by (simp_all add: statement_def)
  let ?a = "take 6 t" and ?y = "drop 6 t"
  have a: "\<forall>c \<in> set ?a. is_letter c" "length ?a = 6"
    using statement_head [OF ci] by simp_all
  have t: "t = ?a @ ?y" by simp
  have fa: "filter (\<lambda>c. c = CHR '';'') ?a = []"
    using a(1) by (auto simp: filter_empty_conv dest: letter_props(4))
  have fy: "filter (\<lambda>c. c = CHR '';'') ?y = '';''"
    using f fa by (metis append_Nil filter_append t)
  then have y: "?y \<noteq> []" by auto
  then have ly: "last ?y = CHR '';''" using l ne by simp
  show ?thesis by (rule that [of ?a ?y]) (use t a y fy ly in simp_all)
qed

lemma statement_join:
  assumes "length a = 6" and "ci_prefix ''SELECT'' (a @ x)" and "y \<noteq> []" and "last y = CHR '';''"
    and "filter (\<lambda>c. c = CHR '';'') (a @ y) = '';''"
  shows "statement (a @ y)"
proof -
  from assms(2) have "ci_prefix ''SELECT'' (take 6 (a @ x) @ y)"
    by (rule ci_prefix_select_append)
  with assms show ?thesis by (simp add: statement_def)
qed

text \<open>Step 3 finds a statement that stands at the start of the text, and all of it.\<close>

lemma upto_semicolon_statement:
  assumes "y \<noteq> []" and "last y = CHR '';''" and "filter (\<lambda>c. c = CHR '';'') y = '';''"
  shows "upto_semicolon y = Some y"
proof -
  obtain z where y: "y = z @ '';''"
    using assms(1,2) by (metis append_butlast_last_id)
  with assms(3) have "filter (\<lambda>c. c = CHR '';'') z = []" by simp
  then have "CHR '';'' \<notin> set z" by (auto simp: filter_empty_conv)
  then have "takeWhile (\<lambda>c. c \<noteq> CHR '';'') (z @ '';'') = z"
    by (induction z) auto
  with y show ?thesis by (simp add: upto_semicolon_def)
qed

lemma search_select_id:
  assumes "statement t"
  shows "search_select t = Some t"
proof -
  from assms obtain a y where t: "t = a @ y" and a: "length a = 6"
    and y: "y \<noteq> []" "last y = CHR '';''" "filter (\<lambda>c. c = CHR '';'') y = '';''"
    by (rule statement_split)
  from assms have ci: "ci_prefix ''SELECT'' t" by (simp add: statement_def)
  from a obtain c cs where acs: "a = c # cs" by (cases a) auto
  have "drop 6 t = y" "take 6 t = a" using t a by simp_all
  moreover have "upto_semicolon y = Some y" using y by (rule upto_semicolon_statement)
  ultimately have "search_select ((c # cs) @ y) = Some t"
    using ci t acs by (simp del: ci_prefix.simps)
  then show ?thesis using t acs by simp
qed

subsection \<open>Step 4 keeps everything but backticks and leaves at most one\<close>

lemma dropWhile_bt:
  "bt \<in> set cs \<Longrightarrow> dropWhile (\<lambda>x. x \<noteq> bt) cs = bt # tl (dropWhile (\<lambda>x. x \<noteq> bt) cs)"
  by (induction cs) auto

lemma split_at_bt:
  assumes "bt \<in> set cs"
  shows "cs = takeWhile (\<lambda>x. x \<noteq> bt) cs @ bt # tl (dropWhile (\<lambda>x. x \<noteq> bt) cs)"
  using dropWhile_bt [OF assms] takeWhile_dropWhile_id [of "\<lambda>x. x \<noteq> bt" cs] by simp

lemma filter_takeWhile_bt:
  "filter (\<lambda>c. c \<noteq> bt) (takeWhile (\<lambda>x. x \<noteq> bt) cs) = takeWhile (\<lambda>x. x \<noteq> bt) cs"
  "filter (\<lambda>c. c = bt) (takeWhile (\<lambda>x. x \<noteq> bt) cs) = []"
  by (induction cs) auto

lemma rm_backticks_filter:
  "filter (\<lambda>c. c \<noteq> bt) (rm_backticks x) = filter (\<lambda>c. c \<noteq> bt) x"
proof (induction x rule: rm_backticks.induct)
  case 1
  then show ?case by simp
next
  case (2 c cs)
  show ?case
  proof (cases "c = bt \<and> bt \<in> set cs")
    case True
    let ?t = "takeWhile (\<lambda>x. x \<noteq> bt) cs" and ?r = "tl (dropWhile (\<lambda>x. x \<noteq> bt) cs)"
    from True have cs: "cs = ?t @ bt # ?r" by (intro split_at_bt) simp
    have "filter (\<lambda>c. c \<noteq> bt) (c # cs) = filter (\<lambda>c. c \<noteq> bt) (?t @ bt # ?r)"
      using True cs by simp
    also have "\<dots> = ?t @ filter (\<lambda>c. c \<noteq> bt) ?r"
      by (simp add: filter_takeWhile_bt)
    finally show ?thesis
      using True "2.IH"(1) by (simp add: filter_takeWhile_bt)
  next
    case False
    with "2.IH"(2) show ?thesis by auto
  qed
qed

lemma rm_backticks_set: "set (rm_backticks x) \<subseteq> set x"
proof (induction x rule: rm_backticks.induct)
  case 1
  then show ?case by simp
next
  case (2 c cs)
  show ?case
  proof (cases "c = bt \<and> bt \<in> set cs")
    case True
    let ?t = "takeWhile (\<lambda>x. x \<noteq> bt) cs" and ?r = "tl (dropWhile (\<lambda>x. x \<noteq> bt) cs)"
    from True have cs: "cs = ?t @ bt # ?r" by (intro split_at_bt) simp
    have "set cs = set ?t \<union> set (bt # ?r)"
      using arg_cong [OF cs, of set] by (simp only: set_append)
    then have "set ?t \<subseteq> set cs" and "set ?r \<subseteq> set cs" by auto
    then show ?thesis using True "2.IH"(1) by auto
  next
    case False
    with "2.IH"(2) show ?thesis by auto
  qed
qed

lemma rm_backticks_count: "length (filter (\<lambda>c. c = bt) (rm_backticks x)) \<le> 1"
proof (induction x rule: rm_backticks.induct)
  case 1
  then show ?case by simp
next
  case (2 c cs)
  show ?case
  proof (cases "c = bt \<and> bt \<in> set cs")
    case True
    with "2.IH"(1) show ?thesis by (simp add: filter_takeWhile_bt)
  next
    case False
    show ?thesis
    proof (cases "c = bt")
      case True
      with False have "bt \<notin> set (rm_backticks cs)" using rm_backticks_set by blast
      then have "filter (\<lambda>c. c = bt) (rm_backticks cs) = []"
        by (auto simp: filter_empty_conv)
      with True False show ?thesis by simp
    next
      case c: False
      with "2.IH"(2) show ?thesis by simp
    qed
  qed
qed

lemma rm_backticks_id: "length (filter (\<lambda>c. c = bt) x) \<le> 1 \<Longrightarrow> rm_backticks x = x"
proof (induction x)
  case Nil
  then show ?case by simp
next
  case (Cons c cs)
  show ?case
  proof (cases "c = bt")
    case True
    with Cons.prems have "filter (\<lambda>c. c = bt) cs = []" by simp
    then have "bt \<notin> set cs" by (auto simp: filter_empty_conv)
    moreover from \<open>filter (\<lambda>c. c = bt) cs = []\<close> have "rm_backticks cs = cs"
      by (intro Cons.IH) simp
    ultimately show ?thesis by simp
  next
    case False
    with Cons show ?thesis by simp
  qed
qed

lemma rm_backticks_prefix: "bt \<notin> set a \<Longrightarrow> rm_backticks (a @ x) = a @ rm_backticks x"
  by (induction a) auto

lemma rm_backticks_last:
  "x \<noteq> [] \<Longrightarrow> last x \<noteq> bt \<Longrightarrow> rm_backticks x \<noteq> [] \<and> last (rm_backticks x) = last x"
proof (induction x rule: rm_backticks.induct)
  case 1
  then show ?case by simp
next
  case (2 c cs)
  show ?case
  proof (cases "c = bt \<and> bt \<in> set cs")
    case True
    let ?t = "takeWhile (\<lambda>x. x \<noteq> bt) cs" and ?r = "tl (dropWhile (\<lambda>x. x \<noteq> bt) cs)"
    from True have cs: "cs = ?t @ bt # ?r" by (intro split_at_bt) simp
    have r: "?r \<noteq> []"
    proof
      assume "?r = []"
      with cs have "cs = ?t @ [bt]" by simp
      then have "last cs = bt" by (metis last_snoc)
      moreover from cs have "cs \<noteq> []" by auto
      ultimately show False using "2.prems" by simp
    qed
    have "last (c # cs) = last (?t @ bt # ?r)" using cs by auto
    also have "\<dots> = last ?r" using r by simp
    finally have l: "last (c # cs) = last ?r" .
    with "2.prems" r have "rm_backticks ?r \<noteq> [] \<and> last (rm_backticks ?r) = last ?r"
      by (intro "2.IH"(1) True) simp_all
    with True l show ?thesis by simp
  next
    case False
    show ?thesis
    proof (cases "cs = []")
      case True
      then show ?thesis by simp
    next
      case ne: False
      with "2.prems" have "rm_backticks cs \<noteq> [] \<and> last (rm_backticks cs) = last cs"
        by (intro "2.IH"(2) False) simp_all
      with False ne show ?thesis by auto
    qed
  qed
qed

subsection \<open>Step 5 keeps everything but whitespace and is idempotent\<close>

lemma space_is_space: "is_space (CHR '' '')" and nl_is_space: "is_space nl"
  by (simp_all add: is_space_def)

lemma filter_dropWhile_not: "filter (\<lambda>c. \<not> P c) (dropWhile P xs) = filter (\<lambda>c. \<not> P c) xs"
  by (induction xs) auto

lemma collapse_ws_filter:
  "filter (\<lambda>c. \<not> is_space c) (collapse_ws x) = filter (\<lambda>c. \<not> is_space c) x"
proof (induction x rule: collapse_ws.induct)
  case 1
  then show ?case by simp
next
  case (2 c cs)
  then show ?case
    by (cases "is_space c") (simp_all add: space_is_space filter_dropWhile_not)
qed

lemma collapse_ws_prefix:
  "\<forall>c \<in> set a. \<not> is_space c \<Longrightarrow> collapse_ws (a @ x) = a @ collapse_ws x"
  by (induction a) auto

lemma collapse_ws_no_nl: "nl \<notin> set (collapse_ws x)"
proof (induction x rule: collapse_ws.induct)
  case 1
  then show ?case by simp
next
  case (2 c cs)
  then show ?case
    by (cases "is_space c") (auto simp: nl_is_space)
qed

lemma dropWhile_collapse_ws:
  "(y \<noteq> [] \<longrightarrow> \<not> is_space (hd y)) \<Longrightarrow> dropWhile is_space (collapse_ws y) = collapse_ws y"
  by (cases y) auto

lemma hd_dropWhile_space: "dropWhile is_space cs \<noteq> [] \<longrightarrow> \<not> is_space (hd (dropWhile is_space cs))"
  using hd_dropWhile [of is_space cs] by blast

lemma collapse_ws_idem: "collapse_ws (collapse_ws x) = collapse_ws x"
proof (induction x rule: collapse_ws.induct)
  case 1
  then show ?case by simp
next
  case (2 c cs)
  show ?case
  proof (cases "is_space c")
    case True
    have "dropWhile is_space (collapse_ws (dropWhile is_space cs)) = collapse_ws (dropWhile is_space cs)"
      by (rule dropWhile_collapse_ws) (rule hd_dropWhile_space)
    with True "2.IH"(1) show ?thesis by (simp add: space_is_space)
  next
    case False
    with "2.IH"(2) show ?thesis by simp
  qed
qed

lemma collapse_ws_last:
  "x \<noteq> [] \<Longrightarrow> \<not> is_space (last x) \<Longrightarrow> collapse_ws x \<noteq> [] \<and> last (collapse_ws x) = last x"
proof (induction x rule: collapse_ws.induct)
  case 1
  then show ?case by simp
next
  case (2 c cs)
  show ?case
  proof (cases "is_space c")
    case True
    with "2.prems" have cs: "cs \<noteq> []" by auto
    let ?d = "dropWhile is_space cs"
    have d: "?d \<noteq> []"
    proof
      assume "?d = []"
      then have "\<forall>x \<in> set cs. is_space x" by (simp add: dropWhile_eq_Nil_conv)
      with cs have "is_space (last cs)" by simp
      with cs "2.prems" show False by simp
    qed
    have "last (takeWhile is_space cs @ ?d) = last ?d" using d by (rule last_appendR)
    then have l: "last cs = last ?d" by (simp only: takeWhile_dropWhile_id)
    with "2.prems" cs d True have "collapse_ws ?d \<noteq> [] \<and> last (collapse_ws ?d) = last ?d"
      by (intro "2.IH"(1)) simp_all
    with True cs l show ?thesis by simp
  next
    case False
    show ?thesis
    proof (cases "cs = []")
      case True
      with False show ?thesis by simp
    next
      case ne: False
      with "2.prems" False have "collapse_ws cs \<noteq> [] \<and> last (collapse_ws cs) = last cs"
        by (intro "2.IH"(2)) simp_all
      with False ne show ?thesis by simp
    qed
  qed
qed

subsection \<open>Line feeds that follow a space vanish in step 5\<close>

lemma nl_after_space_iff:
  "nl_after_space p x \<longleftrightarrow> (\<forall>pre post. x = pre @ nl # post \<longrightarrow> last (p # pre) = CHR '' '')"
proof (induction x arbitrary: p)
  case Nil
  then show ?case by simp
next
  case (Cons c cs)
  show ?case
  proof
    assume a: "nl_after_space p (c # cs)"
    show "\<forall>pre post. c # cs = pre @ nl # post \<longrightarrow> last (p # pre) = CHR '' ''"
    proof (intro allI impI)
      fix pre post
      assume eq: "c # cs = pre @ nl # post"
      show "last (p # pre) = CHR '' ''"
      proof (cases pre)
        case Nil
        with eq a show ?thesis by simp
      next
        case (Cons d ds)
        with eq have "cs = ds @ nl # post" and "d = c" by simp_all
        moreover from a have "nl_after_space c cs" by simp
        ultimately have "last (c # ds) = CHR '' ''" using Cons.IH by blast
        with Cons \<open>d = c\<close> show ?thesis by simp
      qed
    qed
  next
    assume a: "\<forall>pre post. c # cs = pre @ nl # post \<longrightarrow> last (p # pre) = CHR '' ''"
    have "c = nl \<longrightarrow> p = CHR '' ''"
    proof
      assume "c = nl"
      then have "c # cs = [] @ nl # cs" by simp
      with a have "last (p # []) = CHR '' ''" by blast
      then show "p = CHR '' ''" by simp
    qed
    moreover have "nl_after_space c cs"
      unfolding Cons.IH
    proof (intro allI impI)
      fix pre post
      assume "cs = pre @ nl # post"
      then have "c # cs = (c # pre) @ nl # post" by simp
      with a have "last (p # c # pre) = CHR '' ''" by blast
      then show "last (c # pre) = CHR '' ''" by simp
    qed
    ultimately show "nl_after_space p (c # cs)" by simp
  qed
qed

lemma spaced_iff:
  "spaced x \<longleftrightarrow> (\<forall>pre post. x = pre @ nl # post \<longrightarrow> pre \<noteq> [] \<and> last pre = CHR '' '')"
proof (cases x)
  case Nil
  then show ?thesis by (simp add: spaced_def)
next
  case (Cons c cs)
  have "(c \<noteq> nl \<and> (\<forall>pre post. cs = pre @ nl # post \<longrightarrow> last (c # pre) = CHR '' ''))
          \<longleftrightarrow> (\<forall>pre post. c # cs = pre @ nl # post \<longrightarrow> pre \<noteq> [] \<and> last pre = CHR '' '')"
    (is "?l \<longleftrightarrow> ?r")
  proof
    assume l: ?l
    show ?r
    proof (intro allI impI)
      fix pre post
      assume eq: "c # cs = pre @ nl # post"
      show "pre \<noteq> [] \<and> last pre = CHR '' ''"
      proof (cases pre)
        case Nil
        with eq l show ?thesis by simp
      next
        case (Cons d ds)
        with eq have "cs = ds @ nl # post" "d = c" by simp_all
        with l have "last (c # ds) = CHR '' ''" by blast
        with Cons \<open>d = c\<close> show ?thesis by simp
      qed
    qed
  next
    assume r: ?r
    have "c \<noteq> nl"
    proof
      assume "c = nl"
      then have "c # cs = [] @ nl # cs" by simp
      with r show False by blast
    qed
    moreover have "\<forall>pre post. cs = pre @ nl # post \<longrightarrow> last (c # pre) = CHR '' ''"
    proof (intro allI impI)
      fix pre post
      assume "cs = pre @ nl # post"
      then have "c # cs = (c # pre) @ nl # post" by simp
      with r show "last (c # pre) = CHR '' ''" by blast
    qed
    ultimately show ?l by simp
  qed
  with Cons show ?thesis by (simp add: spaced_def nl_after_space_iff)
qed

lemma spaced_dropWhile: "nl_after_space p cs \<Longrightarrow> spaced (dropWhile is_space cs)"
proof (induction cs arbitrary: p)
  case Nil
  then show ?case by (simp add: spaced_def)
next
  case (Cons d ds)
  show ?case
  proof (cases "is_space d")
    case True
    from Cons.prems have "nl_after_space d ds" by simp
    then have "spaced (dropWhile is_space ds)" by (rule Cons.IH)
    with True show ?thesis by simp
  next
    case False
    then have "d \<noteq> nl" using nl_is_space by auto
    with False Cons.prems show ?thesis by (simp add: spaced_def)
  qed
qed

lemma dropWhile_filter_nl:
  "dropWhile is_space (filter (\<lambda>c. c \<noteq> nl) cs) = filter (\<lambda>c. c \<noteq> nl) (dropWhile is_space cs)"
  by (induction cs) (auto simp: nl_is_space)

lemma collapse_ws_spaced:
  "spaced x \<Longrightarrow> collapse_ws x = collapse_ws (filter (\<lambda>c. c \<noteq> nl) x)"
proof (induction x rule: collapse_ws.induct)
  case 1
  then show ?case by simp
next
  case (2 c cs)
  from "2.prems" have c: "c \<noteq> nl" and cs: "nl_after_space c cs"
    by (simp_all add: spaced_def)
  show ?case
  proof (cases "is_space c")
    case True
    from cs have "spaced (dropWhile is_space cs)" by (rule spaced_dropWhile)
    with True "2.IH"(1) have "collapse_ws (dropWhile is_space cs)
        = collapse_ws (filter (\<lambda>c. c \<noteq> nl) (dropWhile is_space cs))" by simp
    with True c show ?thesis by (simp add: dropWhile_filter_nl)
  next
    case False
    have "spaced cs"
    proof (cases cs)
      case Nil
      then show ?thesis by (simp add: spaced_def)
    next
      case (Cons d ds)
      with cs False space_is_space show ?thesis by (auto simp: spaced_def)
    qed
    with False "2.IH"(2) have "collapse_ws cs = collapse_ws (filter (\<lambda>c. c \<noteq> nl) cs)" by simp
    with False c show ?thesis by simp
  qed
qed

subsection \<open>Step 6 only inserts line feeds, each before a letter\<close>

lemma sql_keywords_head:
  "k \<in> set sql_keywords \<Longrightarrow> k \<noteq> [] \<and> lower (hd k) \<in> set ''abcdefghijklmnopqrstuvwxyz''"
  by (auto simp: sql_keywords_def lower_def)

lemma match_kw_props:
  assumes "match_kw p r = Some m"
  shows "m \<noteq> []" and "r = m @ drop (length m) r" and "is_letter (hd m)"
    and "word_boundary p (head r)"
proof -
  from match_kw_keyword [OF assms] obtain k where
    k: "k \<in> set sql_keywords" and at: "kw_at p r k" and m: "m = take (length k) r"
    by blast
  from at have ci: "ci_prefix k r" and wb: "word_boundary p (head r)"
    by (simp_all add: kw_at_def)
  from sql_keywords_head [OF k] obtain k0 ks where
    kk: "k = k0 # ks" and l: "lower k0 \<in> set ''abcdefghijklmnopqrstuvwxyz''"
    by (cases k) auto
  from ci kk obtain c cs where r: "r = c # cs" and c: "lower c = lower k0"
    by (cases r) auto
  from c l have "is_letter c" by (intro lower_letter) simp
  with m kk r show "is_letter (hd m)" by simp
  from m kk r show "m \<noteq> []" by simp
  from m show "r = m @ drop (length m) r"
    by (metis append_take_drop_id length_take min.absorb2 ci ci_prefix_length)
  from wb show "word_boundary p (head r)" .
qed

lemma insert_nl_filter:
  "nl \<notin> set u \<Longrightarrow> filter (\<lambda>c. c \<noteq> nl) (insert_nl p u) = u"
proof (induction p u rule: insert_nl.induct)
  case (1 p)
  then show ?case by simp
next
  case (2 p c cs)
  show ?case
  proof (cases "match_kw p (c # cs)")
    case None
    from "2.prems" have c: "c \<noteq> nl" and cs: "nl \<notin> set cs" by auto
    from "2.IH"(1) [OF None cs] None c show ?thesis by simp
  next
    case (Some m)
    from match_kw_props(2) [OF Some] have r: "c # cs = m @ drop (length m) (c # cs)" .
    then have "set m \<subseteq> set (c # cs)" and "set (drop (length m) (c # cs)) \<subseteq> set (c # cs)"
      by (metis set_append Un_upper1, metis set_drop_subset)
    with "2.prems" have m: "nl \<notin> set m" and d: "nl \<notin> set (drop (length m) (c # cs))"
      by blast+
    from m have "filter (\<lambda>c. c \<noteq> nl) m = m" by (auto simp: filter_id_conv)
    moreover from d have "filter (\<lambda>c. c \<noteq> nl) (insert_nl (Some (last m)) (drop (length m) (c # cs)))
        = drop (length m) (c # cs)"
      by (rule "2.IH"(2) [OF Some])
    ultimately have "filter (\<lambda>c. c \<noteq> nl) (insert_nl p (c # cs)) = m @ drop (length m) (c # cs)"
      using Some by simp
    with r show ?thesis by simp
  qed
qed

lemma insert_nl_last:
  "u \<noteq> [] \<Longrightarrow> insert_nl p u \<noteq> [] \<and> last (insert_nl p u) = last u"
proof (induction p u rule: insert_nl.induct)
  case (1 p)
  then show ?case by simp
next
  case (2 p c cs)
  show ?case
  proof (cases "match_kw p (c # cs)")
    case None
    show ?thesis
    proof (cases "cs = []")
      case True
      with None show ?thesis by simp
    next
      case False
      with "2.IH"(1) [OF None] None show ?thesis by simp
    qed
  next
    case (Some m)
    let ?d = "drop (length m) (c # cs)"
    from match_kw_props [OF Some] have m: "m \<noteq> []" and r: "c # cs = m @ ?d" by blast+
    show ?thesis
    proof (cases "?d = []")
      case True
      have "insert_nl p (c # cs) = nl # m @ insert_nl (Some (last m)) ?d"
        using Some by simp
      with True have v: "insert_nl p (c # cs) = nl # m" by simp
      from r True have "last (c # cs) = last m" by simp
      with v m show ?thesis by simp
    next
      case False
      from "2.IH"(2) [OF Some False]
      have "insert_nl (Some (last m)) ?d \<noteq> [] \<and> last (insert_nl (Some (last m)) ?d) = last ?d" .
      moreover have "last (c # cs) = last ?d"
        using False by (metis last_appendR r)
      ultimately show ?thesis using Some by simp
    qed
  qed
qed

lemma nl_tight_append: "nl \<notin> set m \<Longrightarrow> nl_tight (m @ y) = nl_tight y"
  by (induction m) auto

lemma insert_nl_tight: "nl \<notin> set u \<Longrightarrow> nl_tight (insert_nl p u)"
proof (induction p u rule: insert_nl.induct)
  case (1 p)
  then show ?case by simp
next
  case (2 p c cs)
  show ?case
  proof (cases "match_kw p (c # cs)")
    case None
    from "2.prems" have c: "c \<noteq> nl" and cs: "nl \<notin> set cs" by auto
    from "2.IH"(1) [OF None cs] None c show ?thesis by simp
  next
    case (Some m)
    let ?d = "drop (length m) (c # cs)"
    from match_kw_props [OF Some] have m: "m \<noteq> []" and r: "c # cs = m @ ?d"
      and h: "is_letter (hd m)" by blast+
    from r have "set m \<subseteq> set (c # cs)" and "set ?d \<subseteq> set (c # cs)"
      by (metis set_append Un_upper1, metis set_drop_subset)
    with "2.prems" have nm: "nl \<notin> set m" and d: "nl \<notin> set ?d"
      by blast+
    from d have "nl_tight (insert_nl (Some (last m)) ?d)"
      by (rule "2.IH"(2) [OF Some])
    with nm have "nl_tight (m @ insert_nl (Some (last m)) ?d)"
      by (simp add: nl_tight_append)
    moreover from m h have "\<not> is_space (hd (m @ insert_nl (Some (last m)) ?d))"
      by (simp add: letter_props(2))
    ultimately show ?thesis using Some m by simp
  qed
qed

subsection \<open>Step 7 on such a text\<close>

lemma blank_len_tight: "cs \<noteq> [] \<Longrightarrow> \<not> is_space (hd cs) \<Longrightarrow> blank_len cs = None"
proof -
  assume cs: "cs \<noteq> []" and h: "\<not> is_space (hd cs)"
  then obtain d ds where d: "cs = d # ds" by (cases cs) auto
  with h have "d \<noteq> nl" using nl_is_space by auto
  with d h show ?thesis by (simp add: blank_len_def)
qed

lemma collapse_blank_tight: "nl_tight y \<Longrightarrow> collapse_blank y = y"
proof (induction y rule: collapse_blank.induct)
  case 1
  then show ?case by simp
next
  case (2 c cs)
  show ?case
  proof (cases "c = nl")
    case True
    with "2.prems" have "blank_len cs = None" by (intro blank_len_tight) simp_all
    with True "2.IH"(1) "2.prems" show ?thesis by simp
  next
    case False
    with "2.IH"(3) "2.prems" show ?thesis by simp
  qed
qed

lemma strip_nonspace_last:
  assumes "v \<noteq> []" and "\<not> is_space (last v)"
  shows "strip v = dropWhile is_space v"
proof -
  let ?d = "dropWhile is_space v"
  have d: "?d \<noteq> []"
  proof
    assume "?d = []"
    then have "\<forall>x \<in> set v. is_space x" by (simp add: dropWhile_eq_Nil_conv)
    with assms show False by simp
  qed
  have "last (takeWhile is_space v @ ?d) = last ?d" using d by (rule last_appendR)
  then have "last ?d = last v" by (simp only: takeWhile_dropWhile_id)
  with assms d have "\<not> is_space (hd (rev ?d))" by (simp add: hd_rev)
  with d have "dropWhile is_space (rev ?d) = rev ?d" by (cases "rev ?d") auto
  then show ?thesis by (simp add: strip_def)
qed

subsection \<open>The leading SELECT in step 6\<close>

lemma match_kw_after_word:
  "is_word p \<Longrightarrow> is_word c \<Longrightarrow> match_kw (Some p) (c # cs) = None"
  by (simp add: match_kw_def find_None_iff kw_at_def word_boundary_def head_def)

lemma insert_nl_letters:
  "\<forall>c \<in> set b. is_letter c \<Longrightarrow> is_letter p
     \<Longrightarrow> insert_nl (Some p) (b @ x) = b @ insert_nl (Some (last (p # b))) x"
proof (induction b arbitrary: p)
  case Nil
  then show ?case by simp
next
  case (Cons c b)
  then have "match_kw (Some p) (c # b @ x) = None"
    by (intro match_kw_after_word letter_props(1)) simp_all
  moreover from Cons have "insert_nl (Some c) (b @ x) = b @ insert_nl (Some (last (c # b))) x"
    by (intro Cons.IH) simp_all
  ultimately show ?case by simp
qed

lemma keyword_with_s:
  assumes "k \<in> set sql_keywords" and "ci_prefix k r" and "ci_prefix ''SELECT'' r"
  shows "k = ''SELECT''"
proof -
  from assms(3) obtain c cs where r: "r = c # cs" and c: "lower c = CHR ''s''"
    by (cases r) (auto simp: lower_def)
  from sql_keywords_nonempty [OF assms(1)] obtain k0 ks where k: "k = k0 # ks"
    by (cases k) auto
  with assms(2) r c have "lower k0 = CHR ''s''" by simp
  with assms(1) k show ?thesis
    by (auto simp: sql_keywords_def lower_def)
qed

lemma insert_nl_select:
  assumes a: "length a = 6" "\<forall>c \<in> set a. is_letter c" and ci: "ci_prefix ''SELECT'' (a @ x)"
  shows "dropWhile is_space (insert_nl None (a @ x)) = a @ insert_nl (Some (last a)) x"
proof -
  from a(1) obtain c b where acb: "a = c # b" by (cases a) auto
  with a(2) have c: "is_letter c" and b: "\<forall>c \<in> set b. is_letter c" by simp_all
  show ?thesis
  proof (cases "match_kw None (a @ x)")
    case None
    with acb have "insert_nl None (a @ x) = c # insert_nl (Some c) (b @ x)" by simp
    also have "\<dots> = c # b @ insert_nl (Some (last (c # b))) x"
      using b c by (simp only: insert_nl_letters)
    finally show ?thesis using acb c by (simp add: letter_props(2))
  next
    case (Some m)
    from match_kw_keyword [OF Some] obtain k where
      k: "k \<in> set sql_keywords" and at: "kw_at None (a @ x) k" and m: "m = take (length k) (a @ x)"
      by blast
    from at have "ci_prefix k (a @ x)" by (simp add: kw_at_def)
    from keyword_with_s [OF k this ci] have "k = ''SELECT''" .
    with m a(1) have "m = a" by simp
    with Some acb have "insert_nl None (a @ x) = nl # a @ insert_nl (Some (last a)) x"
      using a(1) by simp
    then show ?thesis using acb c by (simp add: letter_props(2) nl_is_space)
  qed
qed

lemma nl_tight_dropWhile: "nl_tight v \<Longrightarrow> nl_tight (dropWhile P v)"
  by (induction v) auto

subsection \<open>Steps 1 and 2 on a sanitised statement\<close>

lemma prefix_fence_count:
  "prefix [bt, bt, bt] x \<Longrightarrow> 3 \<le> length (filter (\<lambda>c. c = bt) x)"
  by (auto simp: prefix_def)

lemma sub_block_id: "length (filter (\<lambda>c. c = bt) x) < 3 \<Longrightarrow> sub_block x = x"
proof (induction x)
  case Nil
  then show ?case by simp
next
  case (Cons c cs)
  from Cons.prems have "\<not> prefix [bt, bt, bt] (c # cs)"
    using prefix_fence_count [of "c # cs"] by linarith
  then have "match_block (c # cs) = None" unfolding match_block_def by (rule if_not_P)
  moreover from Cons.prems have "length (filter (\<lambda>c. c = bt) cs) < 3"
    by (simp split: if_splits)
  ultimately show ?case using Cons.IH by simp
qed

lemma strip_label_select:
  assumes "ci_prefix ''SELECT'' w"
  shows "strip_label w = w"
proof -
  from assms obtain c1 c2 r where w: "w = c1 # c2 # r"
    and c: "lower c1 = CHR ''s''" "lower c2 = CHR ''e''"
    by (cases w; cases "tl w") (auto simp: lower_def)
  then show ?thesis
    by (simp add: strip_label_def label_alternatives_def lower_def)
qed

lemma filter_through:
  assumes "\<And>c. P c \<Longrightarrow> Q c" and "filter Q xs = filter Q ys"
  shows "filter P xs = filter P ys"
proof -
  have "filter P zs = filter P (filter Q zs)" for zs
    using assms(1) by (induction zs) auto
  with assms(2) show ?thesis by metis
qed

subsection \<open>One pass over a text with a statement\<close>

text \<open>
  When step 3 finds a statement, the sanitised text is six letters followed by the
  outcome of step 6 on the rest, where the letters and the rest make up the text after
  step 5.
\<close>

lemma clean_sql_query_shape:
  assumes "search_select (strip_label (sub_block s)) = Some t"
  obtains a x where "length a = 6" and "\<forall>c \<in> set a. is_letter c"
    and "ci_prefix ''SELECT'' (a @ x)"
    and "collapse_ws (rm_backticks t) = a @ x"
    and "x \<noteq> []" and "last x = CHR '';''"
    and "clean_sql_query s = a @ insert_nl (Some (last a)) x"
proof -
  from assms have st: "statement t" by (rule search_select_statement)
  then obtain a y where t: "t = a @ y" and a: "length a = 6" "\<forall>c \<in> set a. is_letter c"
    and y: "y \<noteq> []" "last y = CHR '';''"
    by (rule statement_split)
  from st have ci: "ci_prefix ''SELECT'' (a @ y)" by (simp add: statement_def t)
  from a(2) have abt: "bt \<notin> set a" and asp: "\<forall>c \<in> set a. \<not> is_space c"
    by (auto dest: letter_props)
  define y4 where "y4 = rm_backticks y"
  define x where "x = collapse_ws y4"
  have t4: "rm_backticks t = a @ y4"
    using abt by (simp add: t y4_def rm_backticks_prefix)
  have y4: "y4 \<noteq> [] \<and> last y4 = CHR '';''"
    using rm_backticks_last [of y] y by (simp add: y4_def)
  have u: "collapse_ws (rm_backticks t) = a @ x"
    using asp by (simp add: t4 x_def collapse_ws_prefix)
  have x: "x \<noteq> [] \<and> last x = CHR '';''"
    using collapse_ws_last [of y4] y4 by (simp add: x_def is_space_def)
  have cix: "ci_prefix ''SELECT'' (a @ x)"
    using ci_prefix_select_append [OF ci, of x] a(1) by simp
  have "nl \<notin> set (collapse_ws (rm_backticks t))" by (rule collapse_ws_no_nl)
  then have nlu: "nl \<notin> set (a @ x)" unfolding u .
  let ?v = "insert_nl None (a @ x)"
  have v: "?v \<noteq> [] \<and> last ?v = last (a @ x)"
    using x by (intro insert_nl_last) simp
  with x have lv: "last ?v = CHR '';''" by simp
  then have "\<not> is_space (last ?v)" by (simp add: is_space_def)
  with v have "strip ?v = dropWhile is_space ?v" by (intro strip_nonspace_last) simp_all
  also have "\<dots> = a @ insert_nl (Some (last a)) x"
    using a cix by (rule insert_nl_select)
  finally have s7: "strip ?v = a @ insert_nl (Some (last a)) x" .
  have "nl_tight ?v" using nlu by (rule insert_nl_tight)
  then have "nl_tight (dropWhile is_space ?v)" by (rule nl_tight_dropWhile)
  then have "nl_tight (a @ insert_nl (Some (last a)) x)"
    using insert_nl_select [OF a cix] by simp
  then have "collapse_blank (a @ insert_nl (Some (last a)) x) = a @ insert_nl (Some (last a)) x"
    by (rule collapse_blank_tight)
  then have "clean_sql_query s = a @ insert_nl (Some (last a)) x"
    by (simp add: clean_sql_query_def assms u s7)
  with a cix u x show ?thesis by (intro that [of a x]) simp_all
qed

subsection \<open>The second pass\<close>

text \<open>
  C5, as the code has it. Step 6 puts a line feed before a keyword that follows a
  parenthesis; the second pass turns that line feed into a space and puts a new line
  feed after it, so a statement with a subquery is changed again by the second pass.
\<close>

lemma clean_subquery_once:
  "clean_sql_query ''SELECT * FROM t WHERE id IN (SELECT id FROM u);''
     = ''SELECT * '' @ [nl] @ ''FROM t '' @ [nl] @ ''WHERE id IN ('' @ [nl] @ ''SELECT id ''
         @ [nl] @ ''FROM u);''"
  by code_simp

lemma clean_subquery_twice:
  "clean_sql_query (''SELECT * '' @ [nl] @ ''FROM t '' @ [nl] @ ''WHERE id IN ('' @ [nl]
                      @ ''SELECT id '' @ [nl] @ ''FROM u);'')
     = ''SELECT * '' @ [nl] @ ''FROM t '' @ [nl] @ ''WHERE id IN ( '' @ [nl] @ ''SELECT id ''
         @ [nl] @ ''FROM u);''"
  by code_simp

theorem clean_sql_query_twice_counterexample:
  "clean_sql_query (clean_sql_query ''SELECT * FROM t WHERE id IN (SELECT id FROM u);'')
     \<noteq> clean_sql_query ''SELECT * FROM t WHERE id IN (SELECT id FROM u);''"
  unfolding clean_subquery_once clean_subquery_twice by simp

text \<open>
  C5, amended. For every input in which step 3 finds a \<open>SELECT ... ;\<close> statement, and
  in whose sanitised text every line feed follows a space (every keyword after the
  first stood after whitespace), sanitising the sanitised text returns it unchanged.
\<close>

theorem clean_sql_query_idempotent:
  assumes found: "search_select (strip_label (sub_block s)) \<noteq> None"
    and sp: "\<forall>pre post. clean_sql_query s = pre @ nl # post \<longrightarrow> pre \<noteq> [] \<and> last pre = CHR '' ''"
  shows "clean_sql_query (clean_sql_query s) = clean_sql_query s"
proof -
  from found obtain t where t: "search_select (strip_label (sub_block s)) = Some t"
    by blast
  then have st: "statement t" by (rule search_select_statement)
  define u where "u = collapse_ws (rm_backticks t)"
  define w where "w = clean_sql_query s"
  from t obtain a x where a: "length a = 6" "\<forall>c \<in> set a. is_letter c"
    and ci: "ci_prefix ''SELECT'' (a @ x)"
    and u: "u = a @ x"
    and x: "x \<noteq> []" "last x = CHR '';''"
    and w: "w = a @ insert_nl (Some (last a)) x"
    unfolding u_def w_def by (rule clean_sql_query_shape)
  let ?z = "insert_nl (Some (last a)) x"
  have pass1: "w = collapse_blank (strip (insert_nl None u))"
    by (simp add: w_def clean_sql_query_def t u_def)
  have nlu: "nl \<notin> set u" unfolding u_def by (rule collapse_ws_no_nl)
  then have nlx: "nl \<notin> set x" and nla: "nl \<notin> set a" by (simp_all add: u)
  have "filter (\<lambda>c. c \<noteq> nl) ?z = x" using nlx by (rule insert_nl_filter)
  moreover have "filter (\<lambda>c. c \<noteq> nl) a = a" using nla by (auto simp: filter_id_conv)
  ultimately have wu: "filter (\<lambda>c. c \<noteq> nl) w = u" by (simp add: w u)
  moreover have "filter (\<lambda>c. c \<noteq> nl) u = u" using nlu by (auto simp: filter_id_conv)
  ultimately have wnl: "filter (\<lambda>c. c \<noteq> nl) w = filter (\<lambda>c. c \<noteq> nl) u" by simp
  have usp: "filter (\<lambda>c. \<not> is_space c) u = filter (\<lambda>c. \<not> is_space c) (rm_backticks t)"
    unfolding u_def by (rule collapse_ws_filter)
  have bt_w: "filter (\<lambda>c. c = bt) w = filter (\<lambda>c. c = bt) (rm_backticks t)"
  proof -
    have "filter (\<lambda>c. c = bt) w = filter (\<lambda>c. c = bt) u"
      by (rule filter_through [OF _ wnl]) simp
    also have "\<dots> = filter (\<lambda>c. c = bt) (rm_backticks t)"
      by (rule filter_through [OF _ usp]) (simp add: is_space_def)
    finally show ?thesis .
  qed
  then have count: "length (filter (\<lambda>c. c = bt) w) \<le> 1"
    using rm_backticks_count [of t] by simp
  have semi: "filter (\<lambda>c. c = CHR '';'') w = '';''"
  proof -
    have "filter (\<lambda>c. c = CHR '';'') w = filter (\<lambda>c. c = CHR '';'') u"
      by (rule filter_through [OF _ wnl]) simp
    also have "\<dots> = filter (\<lambda>c. c = CHR '';'') (rm_backticks t)"
      by (rule filter_through [OF _ usp]) (simp add: is_space_def)
    also have "\<dots> = filter (\<lambda>c. c = CHR '';'') t"
      by (rule filter_through [OF _ rm_backticks_filter]) simp
    also have "\<dots> = '';''" using st by (simp add: statement_def)
    finally show ?thesis .
  qed
  have z: "?z \<noteq> [] \<and> last ?z = last x" using x(1) by (rule insert_nl_last)
  have stw: "statement w"
    unfolding w using a(1) ci
  proof (rule statement_join)
    show "?z \<noteq> []" using z by simp
    show "last ?z = CHR '';''" using z x(2) by simp
    show "filter (\<lambda>c. c = CHR '';'') (a @ ?z) = '';''" using semi by (simp only: w)
  qed
  then have ciw: "ci_prefix ''SELECT'' w" by (simp add: statement_def)
  have s1: "sub_block w = w" using count by (intro sub_block_id) simp
  have s2: "strip_label w = w" using ciw by (rule strip_label_select)
  have s3: "search_select w = Some w" using stw by (rule search_select_id)
  have s4: "rm_backticks w = w" using count by (rule rm_backticks_id)
  have "spaced w" using sp by (simp add: spaced_iff w_def)
  then have "collapse_ws w = collapse_ws (filter (\<lambda>c. c \<noteq> nl) w)" by (rule collapse_ws_spaced)
  also have "\<dots> = collapse_ws u" by (simp only: wu)
  also have "\<dots> = u" unfolding u_def by (rule collapse_ws_idem)
  finally have s5: "collapse_ws w = u" .
  have "clean_sql_query w = collapse_blank (strip (insert_nl None u))"
    by (simp add: clean_sql_query_def s1 s2 s3 s4 s5)
  with pass1 show ?thesis by (simp add: w_def)
qed

text \<open>
  An instance: the fenced statement of the specification.
\<close>

lemma found_fenced:
  "search_select (strip_label (sub_block ([bt, bt, bt] @ ''sql'' @ [nl]
      @ ''SELECT * FROM outlets WHERE address LIKE '' @ [sq] @ ''%SS 2%'' @ [sq] @ '';''
      @ [nl] @ [bt, bt, bt]))) \<noteq> None"
  by code_simp

lemma spaced_fenced:
  "spaced (''SELECT * '' @ [nl] @ ''FROM outlets '' @ [nl] @ ''WHERE address LIKE '' @ [sq]
             @ ''%SS 2%'' @ [sq] @ '';'')"
  by (simp add: spaced_def)

theorem clean_sql_query_idempotent_witness:
  "search_select (strip_label (sub_block ([bt, bt, bt] @ ''sql'' @ [nl]
      @ ''SELECT * FROM outlets WHERE address LIKE '' @ [sq] @ ''%SS 2%'' @ [sq] @ '';''
      @ [nl] @ [bt, bt, bt]))) \<noteq> None
   \<and> clean_sql_query (clean_sql_query ([bt, bt, bt] @ ''sql'' @ [nl]
          @ ''SELECT * FROM outlets WHERE address LIKE '' @ [sq] @ ''%SS 2%'' @ [sq] @ '';''
          @ [nl] @ [bt, bt, bt]))
       = ''SELECT * '' @ [nl] @ ''FROM outlets '' @ [nl] @ ''WHERE address LIKE '' @ [sq]
           @ ''%SS 2%'' @ [sq] @ '';''"
proof -
  have sp: "\<forall>pre post. clean_sql_query ([bt, bt, bt] @ ''sql'' @ [nl]
          @ ''SELECT * FROM outlets WHERE address LIKE '' @ [sq] @ ''%SS 2%'' @ [sq] @ '';''
          @ [nl] @ [bt, bt, bt]) = pre @ nl # post \<longrightarrow> pre \<noteq> [] \<and> last pre = CHR '' ''"
    using spaced_fenced unfolding spaced_iff clean_fenced_unquoted .
  from clean_sql_query_idempotent [OF found_fenced sp] found_fenced
  show ?thesis unfolding clean_fenced_unquoted by blast
qed

end
